theory Spec2Isabelle
  imports Complex_Main "HOL-Library.AList"
begin

section \<open>Values of the Python runtime\<close>

text \<open>
  A Python \<^verbatim>\<open>float\<close>: a finite value, one of the two infinities, or NaN. A finite value
  is written as the real number it denotes, so every real stands for a possible float
  (more values than the doubles, which only makes the statements stronger), and the two
  signed zeros are one value: no comparison tells them apart, only their text does.
\<close>

datatype pyfloat = Fin real | PInf | NInf | NaN

text \<open>The comparison \<^verbatim>\<open>a < b\<close> on floats; every comparison with NaN is false.\<close>

fun flt_lt :: "pyfloat \<Rightarrow> pyfloat \<Rightarrow> bool" where
  "flt_lt (Fin a) (Fin b) = (a < b)"
| "flt_lt (Fin a) PInf = True"
| "flt_lt NInf (Fin b) = True"
| "flt_lt NInf PInf = True"
| "flt_lt _ _ = False"

text \<open>
  The built-ins \<^verbatim>\<open>min(a, b)\<close> and \<^verbatim>\<open>max(a, b)\<close>: the first argument is kept unless the
  second is strictly smaller (for \<^verbatim>\<open>min\<close>) or strictly greater (for \<^verbatim>\<open>max\<close>).
\<close>

definition py_min :: "pyfloat \<Rightarrow> pyfloat \<Rightarrow> pyfloat" where
  "py_min a b = (if flt_lt b a then b else a)"

definition py_max :: "pyfloat \<Rightarrow> pyfloat \<Rightarrow> pyfloat" where
  "py_max a b = (if flt_lt a b then b else a)"

text \<open>\<^verbatim>\<open>bool(x)\<close> of a float: false exactly for zero (NaN and the infinities are true).\<close>

fun flt_truthy :: "pyfloat \<Rightarrow> bool" where
  "flt_truthy (Fin r) = (r \<noteq> 0)"
| "flt_truthy _ = True"

text \<open>The closed interval from 0.0 to 1.0.\<close>

fun in01 :: "pyfloat \<Rightarrow> bool" where
  "in01 (Fin r) = (0 \<le> r \<and> r \<le> 1)"
| "in01 _ = False"

text \<open>
  The exceptions the program meets. \<open>SocketTimeout\<close> is the class \<^verbatim>\<open>socket.timeout\<close>, a
  subclass of \<^verbatim>\<open>OSError\<close> (and, from Python 3.10 on, the built-in \<^verbatim>\<open>TimeoutError\<close>
  itself); \<open>OSError\<close> stands for every other \<^verbatim>\<open>OSError\<close> (alias \<^verbatim>\<open>IOError\<close>).
  \<open>KeyboardInterrupt\<close> derives from \<^verbatim>\<open>BaseException\<close> only.
\<close>

datatype exn =
    UnicodeDecodeError | JSONDecodeError | KeyError | TypeError | ValueError
  | OverflowError | OSError | SocketTimeout | KeyboardInterrupt

fun is_Exception :: "exn \<Rightarrow> bool" where
  "is_Exception KeyboardInterrupt = False"
| "is_Exception _ = True"

fun is_OSError :: "exn \<Rightarrow> bool" where
  "is_OSError OSError = True"
| "is_OSError SocketTimeout = True"
| "is_OSError _ = False"

fun is_socket_timeout :: "exn \<Rightarrow> bool" where
  "is_socket_timeout SocketTimeout = True"
| "is_socket_timeout _ = False"

text \<open>
  What \<^verbatim>\<open>json.loads\<close> returns: \<^verbatim>\<open>None\<close>, a bool, an int, a float, a str, a list or a
  dict. A dict is given by its items, in order; a key is looked up with \<open>map_of\<close>.
  A \<^verbatim>\<open>str\<close> is a HOL string, so the text covered is the one whose code points are
  below 256.
\<close>

datatype json =
    JNull | JBool bool | JInt int | JFloat pyfloat | JStr string
  | JArr "json list" | JObj "(string \<times> json) list"

type_synonym bytes = "char list"

text \<open>
  The library functions the codec calls and whose code is not part of the repository:
  \<^verbatim>\<open>bytes.decode("utf-8")\<close>, \<^verbatim>\<open>json.loads\<close> and \<^verbatim>\<open>float\<close> on a string (\<open>None\<close> where they
  raise), and \<^verbatim>\<open>repr\<close> of a float, which the serialisers use.
\<close>

record pylib =
  utf8_decode :: "bytes \<Rightarrow> string option"
  json_loads :: "string \<Rightarrow> json option"
  str_to_float :: "string \<Rightarrow> pyfloat option"
  float_repr :: "pyfloat \<Rightarrow> string"

subsection \<open>\<^verbatim>\<open>str.strip\<close> and \<^verbatim>\<open>str.lower\<close>\<close>

text \<open>\<^verbatim>\<open>str.isspace\<close> on one character, for code points below 256.\<close>

definition py_isspace :: "char \<Rightarrow> bool" where
  "py_isspace c = (let n = (of_char c :: nat) in
     (9 \<le> n \<and> n \<le> 13) \<or> (28 \<le> n \<and> n \<le> 32) \<or> n = 133 \<or> n = 160)"

definition py_strip :: "string \<Rightarrow> string" where
  "py_strip s = rev (dropWhile py_isspace (rev (dropWhile py_isspace s)))"

text \<open>\<^verbatim>\<open>str.lower\<close> on one character, for code points below 256.\<close>

definition lower_char :: "char \<Rightarrow> char" where
  "lower_char c = (let n = (of_char c :: nat) in
     if (65 \<le> n \<and> n \<le> 90) \<or> (192 \<le> n \<and> n \<le> 222 \<and> n \<noteq> 215)
     then char_of (n + 32) else c)"

definition py_lower :: "string \<Rightarrow> string" where
  "py_lower s = map lower_char s"

subsection \<open>\<^verbatim>\<open>float\<close> of an int\<close>

text \<open>
  \<^verbatim>\<open>int.bit_length\<close>, and the rounding of an int to 53 significant bits, ties to even,
  which \<^verbatim>\<open>float(n)\<close> performs; \<^verbatim>\<open>float(n)\<close> raises \<^verbatim>\<open>OverflowError\<close> when the rounded
  value is beyond the largest double.
\<close>

fun bit_length :: "nat \<Rightarrow> nat" where
  "bit_length n = (if n = 0 then 0 else Suc (bit_length (n div 2)))"

declare bit_length.simps [simp del]

definition round53 :: "int \<Rightarrow> int" where
  "round53 n = (let a = nat \<bar>n\<bar>; k = bit_length a in
     if k \<le> 53 then n
     else let sh = k - 53; q = a div 2 ^ sh; r = a mod 2 ^ sh; h = 2 ^ (sh - 1);
              q' = (if h < r \<or> (r = h \<and> odd q) then q + 1 else q)
          in sgn n * int (q' * 2 ^ sh))"

definition float_of_int :: "int \<Rightarrow> exn + pyfloat" where
  "float_of_int n = (let r = round53 n in
     if 2 ^ 1024 \<le> \<bar>r\<bar> then Inl OverflowError else Inr (Fin (real_of_int r)))"

section \<open>The packet codec\<close>

record sample =
  ts :: pyfloat
  aTA :: pyfloat
  aGAS :: pyfloat
  valid :: bool

definition clamp01 :: "pyfloat \<Rightarrow> pyfloat" where
  "clamp01 x = py_max (Fin 0) (py_min (Fin 1) x)"

text \<open>
  \<^verbatim>\<open>to_float\<close>. A bool is an instance of \<^verbatim>\<open>int\<close>, so the first test of the source holds
  for it and \<^verbatim>\<open>float(True)\<close> is 1.0.
\<close>

fun to_float :: "pylib \<Rightarrow> json \<Rightarrow> exn + pyfloat" where
  "to_float L (JBool b) = float_of_int (if b then 1 else 0)"
| "to_float L (JInt n) = float_of_int n"
| "to_float L (JFloat x) = Inr x"
| "to_float L (JStr s) =
     (case str_to_float L (py_strip s) of None \<Rightarrow> Inl ValueError | Some x \<Rightarrow> Inr x)"
| "to_float L _ = Inl ValueError"

fun to_bool :: "json \<Rightarrow> exn + bool" where
  "to_bool (JBool b) = Inr b"
| "to_bool (JInt n) = Inr (n \<noteq> 0)"
| "to_bool (JFloat x) = Inr (flt_truthy x)"
| "to_bool (JStr s) = Inr (py_lower (py_strip s) \<in> set [''1'', ''true'', ''yes'', ''y''])"
| "to_bool _ = Inl ValueError"

text \<open>\<^verbatim>\<open>msg[k]\<close>: \<^verbatim>\<open>KeyError\<close> on a dict without the key, \<^verbatim>\<open>TypeError\<close> on anything else.\<close>

fun getitem :: "json \<Rightarrow> string \<Rightarrow> exn + json" where
  "getitem (JObj kvs) k = (case map_of kvs k of None \<Rightarrow> Inl KeyError | Some v \<Rightarrow> Inr v)"
| "getitem _ k = Inl TypeError"

definition get_float :: "pylib \<Rightarrow> json \<Rightarrow> string \<Rightarrow> exn + pyfloat" where
  "get_float L msg k = (case getitem msg k of Inl e \<Rightarrow> Inl e | Inr v \<Rightarrow> to_float L v)"

definition get_bool :: "json \<Rightarrow> string \<Rightarrow> exn + bool" where
  "get_bool msg k = (case getitem msg k of Inl e \<Rightarrow> Inl e | Inr v \<Rightarrow> to_bool v)"

text \<open>The dict display of \<^verbatim>\<open>parse_packet\<close>: the four entries are evaluated in order.\<close>

definition parse_msg :: "pylib \<Rightarrow> json \<Rightarrow> exn + sample" where
  "parse_msg L msg =
     (case get_float L msg ''ts'' of Inl e \<Rightarrow> Inl e | Inr t \<Rightarrow>
     (case get_float L msg ''aTA'' of Inl e \<Rightarrow> Inl e | Inr a \<Rightarrow>
     (case get_float L msg ''aGAS'' of Inl e \<Rightarrow> Inl e | Inr g \<Rightarrow>
     (case get_bool msg ''valid'' of Inl e \<Rightarrow> Inl e | Inr v \<Rightarrow>
      Inr \<lparr>ts = t, aTA = clamp01 a, aGAS = clamp01 g, valid = v\<rparr>))))"

definition parse_packet :: "pylib \<Rightarrow> bytes \<Rightarrow> exn + sample" where
  "parse_packet L raw =
     (case utf8_decode L raw of None \<Rightarrow> Inl UnicodeDecodeError | Some txt \<Rightarrow>
     (case json_loads L txt of None \<Rightarrow> Inl JSONDecodeError | Some msg \<Rightarrow>
      parse_msg L msg))"

section \<open>Files and the two artifacts\<close>

type_synonym path = string

text \<open>The file system: the text of every file that exists.\<close>

type_synonym fs = "path \<Rightarrow> string option"

text \<open>\<^verbatim>\<open>os.path.join\<close> (POSIX) with a relative second component.\<close>

definition path_join :: "path \<Rightarrow> path \<Rightarrow> path" where
  "path_join a b = (if a = [] \<or> last a = CHR ''/'' then a @ b else a @ ''/'' @ b)"

definition csv_path :: "path \<Rightarrow> path" where
  "csv_path outdir = path_join outdir ''emg_log.csv''"

definition latest_path :: "path \<Rightarrow> path" where
  "latest_path outdir = path_join outdir ''emg_latest.json''"

definition tmp_path :: "path \<Rightarrow> path" where
  "tmp_path p = p @ ''.tmp''"

subsection \<open>The CSV log\<close>

text \<open>
  \<^verbatim>\<open>csv.DictWriter\<close> with the five field names: a row is the \<^verbatim>\<open>str\<close> of each value in the
  order of the field names, joined by commas and ended by CR LF.
\<close>

fun str_join :: "string \<Rightarrow> string list \<Rightarrow> string" where
  "str_join sep [] = []"
| "str_join sep [x] = x"
| "str_join sep (x # y # ys) = x @ sep @ str_join sep (y # ys)"

definition csv_line :: "string list \<Rightarrow> string" where
  "csv_line cells = str_join '','' cells @ [CHR 0x0D, CHR 0x0A]"

definition fieldnames :: "string list" where
  "fieldnames = [''recv_ts'', ''ts'', ''aTA'', ''aGAS'', ''valid'']"

definition csv_header :: string where
  "csv_header = csv_line fieldnames"

definition bool_str :: "bool \<Rightarrow> string" where
  "bool_str b = (if b then ''True'' else ''False'')"

definition csv_row :: "pylib \<Rightarrow> real \<times> sample \<Rightarrow> string" where
  "csv_row L r = (case r of (recv_ts, emg) \<Rightarrow>
     csv_line [float_repr L (Fin recv_ts), float_repr L (ts emg), float_repr L (aTA emg),
               float_repr L (aGAS emg), bool_str (valid emg)])"

subsection \<open>\<^verbatim>\<open>json.dump\<close> of a sample\<close>

text \<open>The text of a float in \<^verbatim>\<open>json\<close>: \<^verbatim>\<open>repr\<close> for a finite value.\<close>

definition json_float :: "pylib \<Rightarrow> pyfloat \<Rightarrow> string" where
  "json_float L x = (case x of NaN \<Rightarrow> ''NaN'' | PInf \<Rightarrow> ''Infinity''
     | NInf \<Rightarrow> ''-Infinity'' | Fin r \<Rightarrow> float_repr L x)"

text \<open>The chunks that \<^verbatim>\<open>json.dump\<close> passes to \<^verbatim>\<open>f.write\<close>, one call each.\<close>

definition dump_chunks :: "pylib \<Rightarrow> sample \<Rightarrow> string list" where
  \<open>dump_chunks L emg =
     [''{'', ''"ts"'', '': '', json_float L (ts emg),
      '', '', ''"aTA"'', '': '', json_float L (aTA emg),
      '', '', ''"aGAS"'', '': '', json_float L (aGAS emg),
      '', '', ''"valid"'', '': '', (if valid emg then ''true'' else ''false''), ''}'']\<close>

text \<open>What the published file holds after a complete call: the document and a newline.\<close>

definition snapshot_text :: "pylib \<Rightarrow> sample \<Rightarrow> string" where
  "snapshot_text L emg = concat (dump_chunks L emg) @ [CHR 0x0A]"

subsection \<open>\<^verbatim>\<open>atomic_write_json\<close>\<close>

text \<open>
  The file operations of one call, in program order: \<^verbatim>\<open>open(tmp, "w")\<close>, one write per
  chunk, the write of the newline, the close at the end of the \<^verbatim>\<open>with\<close> block, and
  \<^verbatim>\<open>os.replace\<close>.
\<close>

datatype fs_op = OpenW path | Write path string | Close path | Replace path path

fun exec_op :: "fs_op \<Rightarrow> fs \<Rightarrow> fs" where
  "exec_op (OpenW p) d = d(p \<mapsto> [])"
| "exec_op (Write p s) d = d(p \<mapsto> (case d p of None \<Rightarrow> s | Some old \<Rightarrow> old @ s))"
| "exec_op (Close p) d = d"
| "exec_op (Replace src dst) d = (if src = dst then d else (d(dst := d src))(src := None))"

definition run_ops :: "fs_op list \<Rightarrow> fs \<Rightarrow> fs" where
  "run_ops ops d = fold exec_op ops d"

definition atomic_write_json_ops :: "pylib \<Rightarrow> path \<Rightarrow> sample \<Rightarrow> fs_op list" where
  "atomic_write_json_ops L p data = (let tmp = tmp_path p in
     OpenW tmp # map (Write tmp) (dump_chunks L data)
       @ [Write tmp [CHR 0x0A], Close tmp, Replace tmp p])"

text \<open>
  A call either runs all its operations, or operation number \<open>k\<close> raises \<open>e\<close> after the
  \<open>k\<close> operations before it have taken effect.
\<close>

definition atomic_write_json ::
  "pylib \<Rightarrow> (nat \<times> exn) option \<Rightarrow> path \<Rightarrow> sample \<Rightarrow> fs \<Rightarrow> exn option \<times> fs" where
  "atomic_write_json L fault p data d = (let ops = atomic_write_json_ops L p data in
     case fault of
       None \<Rightarrow> (None, run_ops ops d)
     | Some (k, e) \<Rightarrow>
         if k < length ops then (Some e, run_ops (take k ops) d) else (None, run_ops ops d))"

section \<open>The ingestion loop\<close>

text \<open>The options of the command line that the loop reads.\<close>

record config =
  outdir :: path
  print_every :: real
  status_every :: real

text \<open>The lines printed on the console, by their arguments.\<close>

datatype console_line =
    Live pyfloat pyfloat int string
  | StatusWaiting int int
  | StatusLast int int int
  | Stopping

text \<open>
  The local variables of \<^verbatim>\<open>main\<close>, the text written to \<^verbatim>\<open>csv_file\<close> and not yet flushed,
  the file system and the console. Wall-clock readings are finite; their differences
  are taken exactly.
\<close>

record state =
  ok :: int
  bad :: int
  last_live_print :: real
  last_status_print :: real
  last_sample :: "sample option"
  csv_buffer :: string
  disk :: fs
  console :: "console_line list"

text \<open>
  What the environment does during one iteration: the outcome of \<^verbatim>\<open>sock.recvfrom\<close>
  (a datagram with its sender, or an exception, \<^verbatim>\<open>socket.timeout\<close> among them), the
  three readings of \<^verbatim>\<open>time.time()\<close>, and for each of \<^verbatim>\<open>writer.writerow\<close>,
  \<^verbatim>\<open>csv_file.flush\<close> and \<^verbatim>\<open>atomic_write_json\<close> the exception it raises, if any.
\<close>

datatype recv_result = Datagram bytes string | RecvRaises exn

record event =
  recv :: recv_result
  recv_time :: real
  writerow_raises :: "exn option"
  flush_raises :: "exn option"
  publish_raises :: "(nat \<times> exn) option"
  live_time :: real
  status_time :: real

text \<open>\<^verbatim>\<open>csv_file.flush()\<close>: the buffered text is appended to the file.\<close>

definition flush_csv :: "config \<Rightarrow> state \<Rightarrow> state" where
  "flush_csv C st = st\<lparr>
     disk := (disk st)(csv_path (outdir C) \<mapsto>
       (case disk st (csv_path (outdir C)) of None \<Rightarrow> csv_buffer st
        | Some old \<Rightarrow> old @ csv_buffer st)),
     csv_buffer := []\<rparr>"

text \<open>Lines 168 to 177: the rate-limited live line.\<close>

definition live_print :: "config \<Rightarrow> real \<Rightarrow> sample \<Rightarrow> string \<Rightarrow> state \<Rightarrow> state" where
  "live_print C now emg addr st =
     (if print_every C \<le> now - last_live_print st
      then st\<lparr>last_live_print := now,
              console := console st @
                [Live (aTA emg) (aGAS emg) (if valid emg then 1 else 0) addr]\<rparr>
      else st)"

text \<open>Lines 182 to 190: the periodic status line.\<close>

definition status_print :: "config \<Rightarrow> real \<Rightarrow> state \<Rightarrow> state" where
  "status_print C t st =
     (if status_every C \<le> t - last_status_print st
      then st\<lparr>last_status_print := t,
              console := console st @
                [case last_sample st of
                   None \<Rightarrow> StatusWaiting (ok st) (bad st)
                 | Some s \<Rightarrow> StatusLast (ok st) (bad st) (if valid s then 1 else 0)]\<rparr>
      else st)"

text \<open>
  How the statements inside the inner \<^verbatim>\<open>try\<close> (lines 146 to 177) end: they run to the
  end, they reach \<^verbatim>\<open>continue\<close>, or an exception leaves them.
\<close>

datatype flow = Normal | Continue | Raises exn

definition try_body :: "pylib \<Rightarrow> config \<Rightarrow> state \<Rightarrow> event \<Rightarrow> flow \<times> state" where
  "try_body L C st ev =
     (case recv ev of
        RecvRaises e \<Rightarrow> (Raises e, st)
      | Datagram raw addr \<Rightarrow>
     (case parse_packet L raw of
        Inl e \<Rightarrow> (if is_Exception e then (Continue, st\<lparr>bad := bad st + 1\<rparr>)
                  else (Raises e, st))
      | Inr emg \<Rightarrow>
     (case writerow_raises ev of
        Some e \<Rightarrow> (Raises e, st)
      | None \<Rightarrow>
     (let st1 = st\<lparr>csv_buffer := csv_buffer st @ csv_row L (recv_time ev, emg)\<rparr> in
      case flush_raises ev of
        Some e \<Rightarrow> (Raises e, st1)
      | None \<Rightarrow>
     (let st2 = flush_csv C st1 in
      case atomic_write_json L (publish_raises ev) (latest_path (outdir C)) emg (disk st2) of
        (Some e, d) \<Rightarrow> (Raises e, st2\<lparr>disk := d\<rparr>)
      | (None, d) \<Rightarrow>
          (Normal, live_print C (live_time ev) emg addr
                     (st2\<lparr>disk := d, ok := ok st2 + 1, last_sample := Some emg\<rparr>)))))))"

text \<open>
  One iteration of \<^verbatim>\<open>while True\<close>: the loop goes on with a new state, or an exception
  leaves the loop. The handler \<^verbatim>\<open>except socket.timeout: pass\<close> encloses all of
  \<open>try_body\<close>; \<^verbatim>\<open>continue\<close> skips the status line.
\<close>

datatype outcome = Next state | Exit exn state

definition step :: "pylib \<Rightarrow> config \<Rightarrow> state \<Rightarrow> event \<Rightarrow> outcome" where
  "step L C st ev =
     (case try_body L C st ev of
        (Continue, st') \<Rightarrow> Next st'
      | (Normal, st') \<Rightarrow> Next (status_print C (status_time ev) st')
      | (Raises e, st') \<Rightarrow>
          if is_socket_timeout e then Next (status_print C (status_time ev) st')
          else Exit e st')"

text \<open>The loop over the iterations that the environment has offered so far.\<close>

fun run :: "pylib \<Rightarrow> config \<Rightarrow> state \<Rightarrow> event list \<Rightarrow> outcome" where
  "run L C st [] = Next st"
| "run L C st (ev # evs) =
     (case step L C st ev of Next st' \<Rightarrow> run L C st' evs | Exit e st' \<Rightarrow> Exit e st')"

fun state_of :: "outcome \<Rightarrow> state" where
  "state_of (Next st) = st"
| "state_of (Exit e st) = st"

text \<open>
  Lines 115 to 141: the log is opened for appending, which creates it when it is not
  there, and the header is written and flushed if the file did not exist before.
\<close>

definition startup :: "config \<Rightarrow> fs \<Rightarrow> real \<Rightarrow> state" where
  "startup C d t0 =
     (let p = csv_path (outdir C);
          new_file = (d p = None);
          d1 = (if new_file then d(p \<mapsto> []) else d);
          st = \<lparr>ok = 0, bad = 0, last_live_print = 0, last_status_print = t0,
                last_sample = None,
                csv_buffer = (if new_file then csv_header else []),
                disk = d1, console = []\<rparr>
      in if new_file then flush_csv C st else st)"

text \<open>
  \<^verbatim>\<open>main\<close> from line 115 on: the outer \<^verbatim>\<open>try\<close> catches \<^verbatim>\<open>KeyboardInterrupt\<close> only, and the
  \<^verbatim>\<open>finally\<close> clause closes the log, which flushes it. The result is \<open>None\<close> while the
  loop is still running, \<open>Some None\<close> after a clean stop and \<open>Some (Some e)\<close> when \<open>e\<close>
  leaves \<^verbatim>\<open>main\<close>.
\<close>

definition main :: "pylib \<Rightarrow> config \<Rightarrow> fs \<Rightarrow> real \<Rightarrow> event list \<Rightarrow> exn option option \<times> state" where
  "main L C d t0 evs =
     (case run L C (startup C d t0) evs of
        Next st \<Rightarrow> (None, st)
      | Exit e st \<Rightarrow>
          if e = KeyboardInterrupt
          then (Some None, flush_csv C (st\<lparr>console := console st @ [Stopping]\<rparr>))
          else (Some (Some e), flush_csv C st))"

section \<open>A reference library for concrete packets\<close>

text \<open>
  The theorems below hold for every library \<open>L\<close>. To run the codec on concrete packets,
  this section gives one library, \<open>ref_lib\<close>, written after the documentation of Python
  for the part of its input that the examples use: ASCII bytes, JSON documents made
  of one flat object (or one scalar) without escapes in strings and without exponents
  in numbers, and decimal numerals of moderate size. Outside that part it reports a
  failure, so it is a library for examples and not a description of CPython.
\<close>

definition ref_decode :: "bytes \<Rightarrow> string option" where
  "ref_decode raw = (if list_all (\<lambda>c. (of_char c :: nat) < 128) raw then Some raw else None)"

definition is_digit :: "char \<Rightarrow> bool" where
  "is_digit c = (let n = (of_char c :: nat) in 48 \<le> n \<and> n \<le> 57)"

definition digit_val :: "char \<Rightarrow> nat" where
  "digit_val c = of_char c - 48"

definition digits_val :: "string \<Rightarrow> nat" where
  "digits_val ds = foldl (\<lambda>acc c. 10 * acc + digit_val c) 0 ds"

text \<open>An unsigned decimal numeral: digits, and optionally a point and more digits.\<close>

definition split_decimal :: "string \<Rightarrow> (string \<times> string option) option" where
  "split_decimal s =
     (let ip = takeWhile is_digit s; rest = dropWhile is_digit s in
      if ip = [] then None
      else case rest of
             [] \<Rightarrow> Some (ip, None)
           | c # fp \<Rightarrow> if c = CHR ''.'' \<and> fp \<noteq> [] \<and> list_all is_digit fp
                       then Some (ip, Some fp) else None)"

definition decimal_val :: "string \<Rightarrow> string \<Rightarrow> real" where
  "decimal_val ip fp = real (digits_val ip) + real (digits_val fp) / 10 ^ length fp"

text \<open>\<^verbatim>\<open>float(s)\<close> for a signed decimal numeral or one of \<^verbatim>\<open>nan\<close>, \<^verbatim>\<open>inf\<close>, \<^verbatim>\<open>infinity\<close>.\<close>

definition ref_float :: "string \<Rightarrow> pyfloat option" where
  "ref_float s0 =
     (let s = py_lower (py_strip s0);
          neg = (s \<noteq> [] \<and> hd s = CHR ''-'');
          u = (if s \<noteq> [] \<and> (hd s = CHR ''-'' \<or> hd s = CHR ''+'') then tl s else s)
      in if u = ''nan'' then Some NaN
         else if u = ''inf'' \<or> u = ''infinity'' then Some (if neg then NInf else PInf)
         else case split_decimal u of
                None \<Rightarrow> None
              | Some (ip, fpo) \<Rightarrow>
                  (let v = decimal_val ip (case fpo of None \<Rightarrow> [] | Some fp \<Rightarrow> fp)
                   in Some (Fin (if neg then - v else v))))"

text \<open>\<^verbatim>\<open>repr\<close> of a float whose decimal expansion is short.\<close>

definition digit_char :: "nat \<Rightarrow> char" where
  "digit_char d = char_of (48 + d)"

fun show_nat :: "nat \<Rightarrow> string" where
  "show_nat n = (if n < 10 then [digit_char n] else show_nat (n div 10) @ [digit_char (n mod 10)])"

declare show_nat.simps [simp del]

fun frac_digits :: "nat \<Rightarrow> real \<Rightarrow> string" where
  "frac_digits 0 x = []"
| "frac_digits (Suc n) x =
     (if x = 0 then []
      else let y = 10 * x; d = \<lfloor>y\<rfloor> in digit_char (nat d) # frac_digits n (y - of_int d))"

definition ref_repr :: "pyfloat \<Rightarrow> string" where
  "ref_repr x = (case x of
       NaN \<Rightarrow> ''nan'' | PInf \<Rightarrow> ''inf'' | NInf \<Rightarrow> ''-inf''
     | Fin r \<Rightarrow>
         (let a = \<bar>r\<bar>; i = \<lfloor>a\<rfloor>; f = frac_digits 17 (a - of_int i)
          in (if r < 0 then ''-'' else []) @ show_nat (nat i) @ ''.''
               @ (if f = [] then ''0'' else f)))"

subsection \<open>Reading a flat JSON document\<close>

datatype token = LBrace | RBrace | Colon | Comma | TStr string | TAtom string

datatype lex_mode = Outside | InStr string | InAtom string

definition json_ws :: "char \<Rightarrow> bool" where
  "json_ws c = (c = CHR '' '' \<or> c = CHR 0x09 \<or> c = CHR 0x0A \<or> c = CHR 0x0D)"

definition punct :: "char \<Rightarrow> token option" where
  "punct c = (if c = CHR ''{'' then Some LBrace else if c = CHR ''}'' then Some RBrace
     else if c = CHR '':'' then Some Colon else if c = CHR '','' then Some Comma else None)"

text \<open>
  The tokens of a text. A string ends at the next quote; a backslash or a control
  character inside a string is outside the part that this reader covers.
\<close>

fun lex :: "lex_mode \<Rightarrow> string \<Rightarrow> token list option" where
  "lex Outside [] = Some []"
| "lex (InStr acc) [] = None"
| "lex (InAtom acc) [] = Some [TAtom (rev acc)]"
| "lex Outside (c # cs) =
     (if json_ws c then lex Outside cs
      else if c = CHR 0x22 then lex (InStr []) cs
      else case punct c of
             Some t \<Rightarrow> map_option ((#) t) (lex Outside cs)
           | None \<Rightarrow> lex (InAtom [c]) cs)"
| "lex (InStr acc) (c # cs) =
     (if c = CHR 0x22 then map_option ((#) (TStr (rev acc))) (lex Outside cs)
      else if c = CHR 0x5C \<or> (of_char c :: nat) < 32 then None
      else lex (InStr (c # acc)) cs)"
| "lex (InAtom acc) (c # cs) =
     (if json_ws c then map_option ((#) (TAtom (rev acc))) (lex Outside cs)
      else if c = CHR 0x22 then None
      else case punct c of
             Some t \<Rightarrow> map_option (\<lambda>toks. TAtom (rev acc) # t # toks) (lex Outside cs)
           | None \<Rightarrow> lex (InAtom (c # acc)) cs)"

text \<open>
  A literal or a number: an integer numeral gives an \<^verbatim>\<open>int\<close>, a numeral with a
  fraction gives a \<^verbatim>\<open>float\<close>.
\<close>

definition atom_value :: "string \<Rightarrow> json option" where
  "atom_value a =
     (if a = ''true'' then Some (JBool True) else if a = ''false'' then Some (JBool False)
      else if a = ''null'' then Some JNull else if a = ''NaN'' then Some (JFloat NaN)
      else if a = ''Infinity'' then Some (JFloat PInf)
      else if a = ''-Infinity'' then Some (JFloat NInf)
      else let neg = (a \<noteq> [] \<and> hd a = CHR ''-''); u = (if neg then tl a else a) in
        case split_decimal u of
          None \<Rightarrow> None
        | Some (ip, fpo) \<Rightarrow>
            if 1 < length ip \<and> hd ip = CHR ''0'' then None
            else case fpo of
                   None \<Rightarrow> Some (JInt (if neg then - int (digits_val ip) else int (digits_val ip)))
                 | Some fp \<Rightarrow>
                     Some (JFloat (Fin (if neg then - decimal_val ip fp else decimal_val ip fp))))"

definition token_value :: "token \<Rightarrow> json option" where
  "token_value t = (case t of TStr s \<Rightarrow> Some (JStr s) | TAtom a \<Rightarrow> atom_value a | _ \<Rightarrow> None)"

text \<open>The members of an object after the opening brace; a later key replaces an equal earlier one.\<close>

fun members :: "(string \<times> json) list \<Rightarrow> token list \<Rightarrow> (string \<times> json) list option" where
  "members acc (TStr k # Colon # v # RBrace # []) =
     map_option (\<lambda>j. AList.update k j acc) (token_value v)"
| "members acc (TStr k # Colon # v # Comma # rest) =
     (case token_value v of None \<Rightarrow> None | Some j \<Rightarrow> members (AList.update k j acc) rest)"
| "members acc _ = None"

definition ref_loads :: "string \<Rightarrow> json option" where
  "ref_loads txt =
     (case lex Outside txt of
        None \<Rightarrow> None
      | Some [LBrace, RBrace] \<Rightarrow> Some (JObj [])
      | Some (LBrace # toks) \<Rightarrow> map_option JObj (members [] toks)
      | Some [t] \<Rightarrow> token_value t
      | Some _ \<Rightarrow> None)"

definition ref_lib :: pylib where
  "ref_lib = \<lparr>utf8_decode = ref_decode, json_loads = ref_loads,
              str_to_float = ref_float, float_repr = ref_repr\<rparr>"

section \<open>Notions used in the statements\<close>

text \<open>The operations of \<^verbatim>\<open>atomic_write_json\<close> before \<^verbatim>\<open>os.replace\<close>.\<close>

definition tmp_ops :: "pylib \<Rightarrow> path \<Rightarrow> sample \<Rightarrow> fs_op list" where
  "tmp_ops L p data = butlast (atomic_write_json_ops L p data)"

text \<open>
  A packet is malformed when its bytes are not UTF-8, its text is not JSON, one of the
  four fields cannot be read from the message, or the value of a field cannot be
  coerced.
\<close>

definition field_fails :: "pylib \<Rightarrow> json \<Rightarrow> string \<Rightarrow> bool" where
  "field_fails L msg k =
     (case getitem msg k of
        Inl e \<Rightarrow> True
      | Inr v \<Rightarrow> if k = ''valid'' then isl (to_bool v) else isl (to_float L v))"

definition malformed :: "pylib \<Rightarrow> bytes \<Rightarrow> bool" where
  "malformed L raw =
     (case utf8_decode L raw of
        None \<Rightarrow> True
      | Some txt \<Rightarrow>
     (case json_loads L txt of
        None \<Rightarrow> True
      | Some msg \<Rightarrow> list_ex (field_fails L msg) [''ts'', ''aTA'', ''aGAS'', ''valid'']))"

text \<open>The log record of an iteration that receives a packet which decodes.\<close>

definition accepted :: "pylib \<Rightarrow> event \<Rightarrow> (real \<times> sample) option" where
  "accepted L ev =
     (case recv ev of
        RecvRaises e \<Rightarrow> None
      | Datagram raw addr \<Rightarrow>
          (case parse_packet L raw of Inl e \<Rightarrow> None | Inr emg \<Rightarrow> Some (recv_time ev, emg)))"

text \<open>
  The exception that the persistence of a decoded sample raises in an iteration, if
  any: from \<^verbatim>\<open>writerow\<close>, else from \<^verbatim>\<open>flush\<close>, else from \<^verbatim>\<open>atomic_write_json\<close>.
\<close>

definition persistence_fault :: "pylib \<Rightarrow> config \<Rightarrow> sample \<Rightarrow> event \<Rightarrow> exn option" where
  "persistence_fault L C emg ev =
     (case writerow_raises ev of
        Some e \<Rightarrow> Some e
      | None \<Rightarrow>
     (case flush_raises ev of
        Some e \<Rightarrow> Some e
      | None \<Rightarrow>
     (case publish_raises ev of
        None \<Rightarrow> None
      | Some (k, e) \<Rightarrow>
          if k < length (atomic_write_json_ops L (latest_path (outdir C)) emg)
          then Some e else None)))"

text \<open>An iteration in which nothing raises but, possibly, the receive timeout.\<close>

definition quiet :: "event \<Rightarrow> bool" where
  "quiet ev =
     (writerow_raises ev = None \<and> flush_raises ev = None \<and> publish_raises ev = None
      \<and> (case recv ev of Datagram raw addr \<Rightarrow> True | RecvRaises e \<Rightarrow> is_socket_timeout e))"

fun continues :: "outcome \<Rightarrow> bool" where
  "continues (Next st) = True"
| "continues (Exit e st) = False"

subsection \<open>Concrete values for the examples\<close>

definition example_config :: config where
  "example_config = \<lparr>outdir = ''out'', print_every = 0.2, status_every = 2\<rparr>"

definition example_sample :: sample where
  "example_sample = \<lparr>ts = Fin 1.5, aTA = Fin 0.42, aGAS = Fin 0.77, valid = True\<rparr>"

definition example_packet :: bytes where
  \<open>example_packet = ''{"ts": 1.5, "aTA": 0.42, "aGAS": 0.77, "valid": true}''\<close>

definition example_event :: event where
  "example_event = \<lparr>recv = Datagram example_packet ''127.0.0.1'', recv_time = 10,
     writerow_raises = None, flush_raises = None, publish_raises = None,
     live_time = 10, status_time = 10\<rparr>"

section \<open>Properties of the codec\<close>

lemma clamp01_in01: "in01 (clamp01 x)"
  by (cases x) (auto simp: clamp01_def py_min_def py_max_def)

lemma bit_length_0 [simp]: "bit_length 0 = 0"
  by (simp add: bit_length.simps)

lemma bit_length_pos: "0 < n \<Longrightarrow> bit_length n = Suc (bit_length (n div 2))"
  by (subst bit_length.simps) simp

lemma bit_length_1 [simp]: "bit_length (Suc 0) = Suc 0"
  by (simp add: bit_length_pos)

lemma float_of_bool: "float_of_int (if b then 1 else 0) = Inr (Fin (if b then 1 else 0))"
  by (simp add: float_of_int_def round53_def)

lemma float_of_int_error: "float_of_int n = Inl e \<Longrightarrow> e = OverflowError"
  by (auto simp: float_of_int_def Let_def split: if_splits)

lemma to_float_error: "to_float L v = Inl e \<Longrightarrow> e = ValueError \<or> e = OverflowError"
  by (cases v) (auto dest: float_of_int_error split: option.splits if_splits)

lemma to_bool_error: "to_bool v = Inl e \<Longrightarrow> e = ValueError"
  by (cases v) auto

lemma getitem_error: "getitem msg k = Inl e \<Longrightarrow> e = KeyError \<or> e = TypeError"
  by (cases msg) (auto split: option.splits)

lemma get_float_error:
  "get_float L msg k = Inl e \<Longrightarrow> e \<in> {KeyError, TypeError, ValueError, OverflowError}"
  by (auto simp: get_float_def split: sum.splits dest: getitem_error to_float_error)

lemma get_bool_error: "get_bool msg k = Inl e \<Longrightarrow> e \<in> {KeyError, TypeError, ValueError}"
  by (auto simp: get_bool_def split: sum.splits dest: getitem_error to_bool_error)

lemma parse_msg_error:
  "parse_msg L msg = Inl e \<Longrightarrow> e \<in> {KeyError, TypeError, ValueError, OverflowError}"
  unfolding parse_msg_def
  by (auto split: sum.splits dest!: get_float_error get_bool_error)

lemma parse_packet_error:
  "parse_packet L raw = Inl e \<Longrightarrow>
     e \<in> {UnicodeDecodeError, JSONDecodeError, KeyError, TypeError, ValueError, OverflowError}"
  unfolding parse_packet_def
  by (auto split: option.splits dest!: parse_msg_error)

lemma parse_packet_is_Exception: "parse_packet L raw = Inl e \<Longrightarrow> is_Exception e"
  by (auto dest!: parse_packet_error)

lemma parse_msg_clamped: "parse_msg L msg = Inr s \<Longrightarrow> in01 (aTA s) \<and> in01 (aGAS s)"
  unfolding parse_msg_def
  by (auto split: sum.splits simp: clamp01_in01)

lemma clamp01_below: "flt_lt x (Fin 0) \<Longrightarrow> clamp01 x = Fin 0"
  by (cases x) (auto simp: clamp01_def py_min_def py_max_def)

lemma clamp01_above: "flt_lt (Fin 1) x \<Longrightarrow> clamp01 x = Fin 1"
  by (cases x) (auto simp: clamp01_def py_min_def py_max_def)

lemma clamp01_inside: "in01 x \<Longrightarrow> clamp01 x = x"
  by (cases x) (auto simp: clamp01_def py_min_def py_max_def)

text \<open>
  Claim C4. Whatever decodes successfully has both activations in the interval from 0.0
  to 1.0 (NaN and the infinities included: \<^verbatim>\<open>clamp01\<close> sends NaN to 1.0); a value below
  0 becomes 0 and a value above 1 becomes 1; a message with \<^verbatim>\<open>aTA = -0.1\<close> and
  \<^verbatim>\<open>aGAS = 1.7\<close> decodes to 0.0 and 1.0.
\<close>

theorem decoded_activations_in_unit_interval:
  "(parse_packet L raw = Inr s \<longrightarrow> in01 (aTA s) \<and> in01 (aGAS s))
   \<and> (flt_lt x (Fin 0) \<longrightarrow> clamp01 x = Fin 0)
   \<and> (flt_lt (Fin 1) x \<longrightarrow> clamp01 x = Fin 1)
   \<and> parse_msg L (JObj [(''ts'', JFloat (Fin 1.5)), (''aTA'', JFloat (Fin (- 0.1))),
                        (''aGAS'', JFloat (Fin 1.7)), (''valid'', JBool True)])
       = Inr \<lparr>ts = Fin 1.5, aTA = Fin 0, aGAS = Fin 1, valid = True\<rparr>"
proof (intro conjI impI)
  assume "parse_packet L raw = Inr s"
  then obtain msg where "parse_msg L msg = Inr s"
    by (auto simp: parse_packet_def split: option.splits)
  then show "in01 (aTA s)" "in01 (aGAS s)"
    using parse_msg_clamped by blast+
next
  assume "flt_lt x (Fin 0)" then show "clamp01 x = Fin 0" by (rule clamp01_below)
next
  assume "flt_lt (Fin 1) x" then show "clamp01 x = Fin 1" by (rule clamp01_above)
next
  show "parse_msg L (JObj [(''ts'', JFloat (Fin 1.5)), (''aTA'', JFloat (Fin (- 0.1))),
                        (''aGAS'', JFloat (Fin 1.7)), (''valid'', JBool True)])
       = Inr \<lparr>ts = Fin 1.5, aTA = Fin 0, aGAS = Fin 1, valid = True\<rparr>"
    by (simp add: parse_msg_def get_float_def get_bool_def clamp01_def py_min_def py_max_def)
qed

theorem decoded_activations_in_unit_interval_witness:
  \<open>parse_packet ref_lib ''{"ts": 1.5, "aTA": -0.1, "aGAS": 1.7, "valid": true}''
     = Inr \<lparr>ts = Fin 1.5, aTA = Fin 0, aGAS = Fin 1, valid = True\<rparr>
   \<and> in01 (Fin 0) \<and> in01 (Fin 1)
   \<and> flt_lt (Fin (- 0.1)) (Fin 0) \<and> clamp01 (Fin (- 0.1)) = Fin 0
   \<and> flt_lt (Fin 1) (Fin 1.7) \<and> clamp01 (Fin 1.7) = Fin 1\<close>
proof -
  have p: \<open>parse_packet ref_lib ''{"ts": 1.5, "aTA": -0.1, "aGAS": 1.7, "valid": true}''
     = Inr \<lparr>ts = Fin 1.5, aTA = Fin 0, aGAS = Fin 1, valid = True\<rparr>\<close>
    by code_simp
  have a: "flt_lt (Fin (- 0.1)) (Fin 0)" and b: "flt_lt (Fin 1) (Fin 1.7)" by simp_all
  note t1 = decoded_activations_in_unit_interval
    [of ref_lib \<open>''{"ts": 1.5, "aTA": -0.1, "aGAS": 1.7, "valid": true}''\<close>
        "\<lparr>ts = Fin 1.5, aTA = Fin 0, aGAS = Fin 1, valid = True\<rparr>" "Fin (- 0.1)"]
  note t2 = decoded_activations_in_unit_interval
    [of ref_lib \<open>''{"ts": 1.5, "aTA": -0.1, "aGAS": 1.7, "valid": true}''\<close>
        "\<lparr>ts = Fin 1.5, aTA = Fin 0, aGAS = Fin 1, valid = True\<rparr>" "Fin 1.7"]
  from t1 p a have "in01 (Fin 0) \<and> in01 (Fin 1) \<and> clamp01 (Fin (- 0.1)) = Fin 0" by simp
  moreover from t2 b have "clamp01 (Fin 1.7) = Fin 1" by simp
  ultimately show ?thesis using p a b by simp
qed

text \<open>
  Claim C5. \<^verbatim>\<open>to_bool\<close> returns a bool as it is, a number by the test for nonzero, and a
  string by membership of its stripped, lower-cased text in the four literals; the
  string \<^verbatim>\<open>YES\<close> gives true and the string \<^verbatim>\<open>false\<close> gives false.
\<close>

theorem to_bool_coercion:
  "to_bool (JBool b) = Inr b
   \<and> to_bool (JInt n) = Inr (n \<noteq> 0)
   \<and> to_bool (JFloat x) = Inr (x \<noteq> Fin 0)
   \<and> to_bool (JStr s) = Inr (py_lower (py_strip s) \<in> {''1'', ''true'', ''yes'', ''y''})
   \<and> to_bool (JStr ''YES'') = Inr True
   \<and> to_bool (JStr ''false'') = Inr False"
proof -
  have "flt_truthy x = (x \<noteq> Fin 0)" by (cases x) auto
  moreover have "to_bool (JStr ''YES'') = Inr True" by code_simp
  moreover have "to_bool (JStr ''false'') = Inr False" by code_simp
  ultimately show ?thesis by simp
qed

section \<open>Properties of the files\<close>

lemma tmp_path_neq [simp]: "tmp_path p \<noteq> p" "p \<noteq> tmp_path p"
  by (auto simp: tmp_path_def)

lemma path_join_cong: "path_join a x = path_join a y \<longleftrightarrow> x = y"
  by (auto simp: path_join_def)

lemma csv_neq_latest [simp]: "csv_path a \<noteq> latest_path a" "latest_path a \<noteq> csv_path a"
  by (auto simp: csv_path_def latest_path_def path_join_cong)

lemma csv_neq_tmp [simp]:
  "csv_path a \<noteq> tmp_path (latest_path a)" "tmp_path (latest_path a) \<noteq> csv_path a"
  by (auto simp: csv_path_def latest_path_def tmp_path_def path_join_def)

lemma run_ops_append: "run_ops (xs @ ys) d = run_ops ys (run_ops xs d)"
  by (simp add: run_ops_def)

lemma run_ops_Cons: "run_ops (x # xs) d = run_ops xs (exec_op x d)"
  by (simp add: run_ops_def)

lemma run_ops_Nil [simp]: "run_ops [] d = d"
  by (simp add: run_ops_def)

lemma write_chunks:
  "run_ops (map (Write t) cs) (d(t \<mapsto> acc)) = d(t \<mapsto> acc @ concat cs)"
proof (induction cs arbitrary: acc)
  case Nil
  then show ?case by simp
next
  case (Cons c cs)
  have "exec_op (Write t c) (d(t \<mapsto> acc)) = d(t \<mapsto> acc @ c)"
    by simp
  then have "run_ops (map (Write t) (c # cs)) (d(t \<mapsto> acc))
      = run_ops (map (Write t) cs) (d(t \<mapsto> acc @ c))"
    by (simp only: list.map run_ops_Cons)
  also have "\<dots> = d(t \<mapsto> (acc @ c) @ concat cs)"
    by (rule Cons.IH)
  finally show ?case by (simp only: concat.simps append_assoc)
qed

lemma ops_split:
  "atomic_write_json_ops L p data = tmp_ops L p data @ [Replace (tmp_path p) p]"
  by (simp add: tmp_ops_def atomic_write_json_ops_def Let_def butlast_append)

lemma tmp_ops_eq:
  "tmp_ops L p data = OpenW (tmp_path p) # map (Write (tmp_path p)) (dump_chunks L data)
       @ [Write (tmp_path p) [CHR 0x0A], Close (tmp_path p)]"
  by (simp add: tmp_ops_def atomic_write_json_ops_def Let_def butlast_append)

lemma exec_op_other:
  "op \<in> set (tmp_ops L p data) \<Longrightarrow> q \<noteq> tmp_path p \<Longrightarrow> exec_op op d q = d q"
  by (auto simp: tmp_ops_eq)

lemma run_ops_other:
  "set ops \<subseteq> set (tmp_ops L p data) \<Longrightarrow> q \<noteq> tmp_path p \<Longrightarrow> run_ops ops d q = d q"
proof (induction ops arbitrary: d)
  case Nil
  then show ?case by simp
next
  case (Cons op ops)
  then have "run_ops ops (exec_op op d) q = exec_op op d q" by simp
  also have "\<dots> = d q" using Cons.prems by (auto intro: exec_op_other)
  finally show ?case by (simp add: run_ops_Cons)
qed

lemma run_tmp_ops:
  "run_ops (tmp_ops L p data) d = d(tmp_path p \<mapsto> snapshot_text L data)"
proof -
  have "run_ops (map (Write (tmp_path p)) (dump_chunks L data)) (d(tmp_path p \<mapsto> []))
      = d(tmp_path p \<mapsto> concat (dump_chunks L data))"
    using write_chunks [of "tmp_path p" "dump_chunks L data" d "[]"] by simp
  then show ?thesis
    by (simp add: tmp_ops_eq run_ops_Cons run_ops_append snapshot_text_def)
qed

lemma run_all_ops:
  "run_ops (atomic_write_json_ops L p data) d
     = (d(p \<mapsto> snapshot_text L data))(tmp_path p := None)"
  by (auto simp: ops_split run_ops_append run_tmp_ops run_ops_Cons)

lemma length_ops: "length (atomic_write_json_ops L p data) = Suc (length (tmp_ops L p data))"
  by (simp add: ops_split)

lemma take_ops:
  "k < length (atomic_write_json_ops L p data) \<Longrightarrow>
     take k (atomic_write_json_ops L p data) = take k (tmp_ops L p data)"
  by (simp add: ops_split length_ops)

lemma partial_ops_keep:
  assumes "k < length (atomic_write_json_ops L p data)" and "q \<noteq> tmp_path p"
  shows "run_ops (take k (atomic_write_json_ops L p data)) d q = d q"
proof -
  have "set (take k (tmp_ops L p data)) \<subseteq> set (tmp_ops L p data)"
    by (rule set_take_subset)
  then show ?thesis using assms by (simp add: take_ops run_ops_other)
qed

text \<open>
  Claim C3. In every call of \<^verbatim>\<open>atomic_write_json\<close>, after any number of its file
  operations the published path still holds what it held before the call, until the
  last operation; that last operation is the one \<^verbatim>\<open>os.replace\<close>, it finds the whole
  serialised sample in the temporary file, and after it the published path holds that
  text. A call that raises has left the published path as it was.
\<close>

theorem publish_is_atomic:
  "(\<forall>k \<le> length (atomic_write_json_ops L p data).
      run_ops (take k (atomic_write_json_ops L p data)) d p
        = (if k < length (atomic_write_json_ops L p data) then d p
           else Some (snapshot_text L data)))
   \<and> last (atomic_write_json_ops L p data) = Replace (tmp_path p) p
   \<and> run_ops (butlast (atomic_write_json_ops L p data)) d (tmp_path p)
        = Some (snapshot_text L data)
   \<and> (\<forall>k e. k < length (atomic_write_json_ops L p data) \<longrightarrow>
        atomic_write_json L (Some (k, e)) p data d
          = (Some e, run_ops (take k (atomic_write_json_ops L p data)) d))"
proof (intro conjI allI impI)
  fix k assume "k \<le> length (atomic_write_json_ops L p data)"
  then consider "k < length (atomic_write_json_ops L p data)"
    | "k = length (atomic_write_json_ops L p data)" by linarith
  then show "run_ops (take k (atomic_write_json_ops L p data)) d p
        = (if k < length (atomic_write_json_ops L p data) then d p
           else Some (snapshot_text L data))"
  proof cases
    case 1
    then show ?thesis by (simp add: partial_ops_keep)
  next
    case 2
    then show ?thesis by (simp add: run_all_ops)
  qed
next
  show "last (atomic_write_json_ops L p data) = Replace (tmp_path p) p"
    by (simp add: ops_split)
next
  show "run_ops (butlast (atomic_write_json_ops L p data)) d (tmp_path p)
        = Some (snapshot_text L data)"
    by (simp add: ops_split run_tmp_ops)
next
  fix k e assume "k < length (atomic_write_json_ops L p data)"
  then show "atomic_write_json L (Some (k, e)) p data d
          = (Some e, run_ops (take k (atomic_write_json_ops L p data)) d)"
    by (simp add: atomic_write_json_def)
qed

theorem publish_is_atomic_witness:
  \<open>(3::nat) \<le> length (atomic_write_json_ops ref_lib ''out/emg_latest.json'' example_sample)
   \<and> run_ops (take 3 (atomic_write_json_ops ref_lib ''out/emg_latest.json'' example_sample))
        [''out/emg_latest.json'' \<mapsto> ''old''] ''out/emg_latest.json'' = Some ''old''
   \<and> run_ops (take 21 (atomic_write_json_ops ref_lib ''out/emg_latest.json'' example_sample))
        [''out/emg_latest.json'' \<mapsto> ''old''] ''out/emg_latest.json''
       = Some (''{"ts": 1.5, "aTA": 0.42, "aGAS": 0.77, "valid": true}'' @ [CHR 0x0A])
   \<and> atomic_write_json ref_lib (Some (3, OSError)) ''out/emg_latest.json'' example_sample
        [''out/emg_latest.json'' \<mapsto> ''old'']
       = (Some OSError,
          run_ops (take 3 (atomic_write_json_ops ref_lib ''out/emg_latest.json'' example_sample))
            [''out/emg_latest.json'' \<mapsto> ''old''])\<close>
proof -
  have len: \<open>length (atomic_write_json_ops ref_lib ''out/emg_latest.json'' example_sample) = 21\<close>
    by (simp add: atomic_write_json_ops_def dump_chunks_def Let_def)
  have stext: \<open>snapshot_text ref_lib example_sample
      = ''{"ts": 1.5, "aTA": 0.42, "aGAS": 0.77, "valid": true}'' @ [CHR 0x0A]\<close>
    by code_simp
  note t = publish_is_atomic [of ref_lib \<open>''out/emg_latest.json''\<close> example_sample
      \<open>[''out/emg_latest.json'' \<mapsto> ''old'']\<close>]
  from t have a: \<open>\<forall>k \<le> length (atomic_write_json_ops ref_lib ''out/emg_latest.json'' example_sample).
      run_ops (take k (atomic_write_json_ops ref_lib ''out/emg_latest.json'' example_sample))
        [''out/emg_latest.json'' \<mapsto> ''old''] ''out/emg_latest.json''
        = (if k < length (atomic_write_json_ops ref_lib ''out/emg_latest.json'' example_sample)
           then [''out/emg_latest.json'' \<mapsto> ''old''] ''out/emg_latest.json''
           else Some (snapshot_text ref_lib example_sample))\<close>
    by blast
  from t have b: \<open>\<forall>k e. k < length (atomic_write_json_ops ref_lib ''out/emg_latest.json'' example_sample) \<longrightarrow>
        atomic_write_json ref_lib (Some (k, e)) ''out/emg_latest.json'' example_sample
            [''out/emg_latest.json'' \<mapsto> ''old'']
          = (Some e, run_ops (take k (atomic_write_json_ops ref_lib ''out/emg_latest.json'' example_sample))
               [''out/emg_latest.json'' \<mapsto> ''old''])\<close>
    by blast
  from a [rule_format, of 3] a [rule_format, of 21] b [rule_format, of 3 OSError] len stext
  show ?thesis by simp
qed

text \<open>
  Claim C9. Publishing the same sample a second time leaves the file system, and so the
  published file, exactly as the first call left it.
\<close>

theorem publish_idempotent:
  "atomic_write_json L None p data (snd (atomic_write_json L None p data d))
     = atomic_write_json L None p data d
   \<and> snd (atomic_write_json L None p data d) p = Some (snapshot_text L data)"
  by (auto simp: atomic_write_json_def run_all_ops fun_eq_iff)

section \<open>Properties of the ingestion loop\<close>

lemma status_print_keeps [simp]:
  "ok (status_print C t st) = ok st" "bad (status_print C t st) = bad st"
  "last_sample (status_print C t st) = last_sample st"
  "csv_buffer (status_print C t st) = csv_buffer st"
  "disk (status_print C t st) = disk st"
  by (simp_all add: status_print_def)

lemma live_print_keeps [simp]:
  "ok (live_print C t emg a st) = ok st" "bad (live_print C t emg a st) = bad st"
  "last_sample (live_print C t emg a st) = last_sample st"
  "csv_buffer (live_print C t emg a st) = csv_buffer st"
  "disk (live_print C t emg a st) = disk st"
  by (simp_all add: live_print_def)

lemma step_reject:
  assumes "recv ev = Datagram raw addr" and "parse_packet L raw = Inl e"
  shows "step L C st ev = Next (st\<lparr>bad := bad st + 1\<rparr>)"
  using assms parse_packet_is_Exception [OF assms(2)]
  by (simp add: step_def try_body_def)

lemma step_recv_raises:
  assumes "recv ev = RecvRaises e"
  shows "step L C st ev =
     (if is_socket_timeout e then Next (status_print C (status_time ev) st) else Exit e st)"
  using assms by (simp add: step_def try_body_def)

text \<open>The file system after the log append and the publish of one sample.\<close>

lemma step_accept:
  assumes "recv ev = Datagram raw addr" and "parse_packet L raw = Inr emg"
    and "persistence_fault L C emg ev = None"
  shows "\<exists>st'. step L C st ev = Next st'
     \<and> ok st' = ok st + 1 \<and> bad st' = bad st \<and> last_sample st' = Some emg
     \<and> csv_buffer st' = []
     \<and> disk st' = ((disk st)(csv_path (outdir C) \<mapsto>
           (case disk st (csv_path (outdir C)) of None \<Rightarrow> [] | Some old \<Rightarrow> old)
             @ csv_buffer st @ csv_row L (recv_time ev, emg)))
         (latest_path (outdir C) \<mapsto> snapshot_text L emg,
          tmp_path (latest_path (outdir C)) := None)"
proof -
  from assms(3) have w: "writerow_raises ev = None" and f: "flush_raises ev = None"
    by (auto simp: persistence_fault_def split: option.splits)
  from assms(3) w f have a: "atomic_write_json L (publish_raises ev) (latest_path (outdir C)) emg d
      = (None, run_ops (atomic_write_json_ops L (latest_path (outdir C)) emg) d)" for d
    by (auto simp: persistence_fault_def atomic_write_json_def split: option.splits if_splits)
  show ?thesis
    using assms(1,2) w f
    by (auto simp: step_def try_body_def a Let_def flush_csv_def run_all_ops split: option.splits)
qed

lemma step_fault:
  assumes "recv ev = Datagram raw addr" and "parse_packet L raw = Inr emg"
    and "persistence_fault L C emg ev = Some e"
  shows "\<exists>st'. ok st' = ok st \<and> bad st' = bad st \<and> last_sample st' = last_sample st
     \<and> disk st' (latest_path (outdir C)) = disk st (latest_path (outdir C))
     \<and> step L C st ev = (if is_socket_timeout e then Next st' else Exit e st')"
proof -
  let ?p = "latest_path (outdir C)"
  consider (w) "writerow_raises ev = Some e"
    | (f) "writerow_raises ev = None" "flush_raises ev = Some e"
    | (p) k where "writerow_raises ev = None" "flush_raises ev = None"
        "publish_raises ev = Some (k, e)" "k < length (atomic_write_json_ops L ?p emg)"
    using assms(3) by (auto simp: persistence_fault_def split: option.splits if_splits)
  then show ?thesis
  proof cases
    case w
    then show ?thesis using assms(1,2)
      by (cases "is_socket_timeout e") (auto simp: step_def try_body_def)
  next
    case f
    then show ?thesis using assms(1,2)
      by (cases "is_socket_timeout e") (auto simp: step_def try_body_def Let_def)
  next
    case p
    then show ?thesis using assms(1,2)
      by (cases "is_socket_timeout e")
         (auto simp: step_def try_body_def Let_def atomic_write_json_def flush_csv_def
            partial_ops_keep)
  qed
qed

subsection \<open>Malformed packets\<close>

lemma field_fails_float:
  "k \<noteq> ''valid'' \<Longrightarrow> field_fails L msg k = isl (get_float L msg k)"
  by (auto simp: field_fails_def get_float_def split: sum.splits)

lemma field_fails_bool: "field_fails L msg ''valid'' = isl (get_bool msg ''valid'')"
  by (auto simp: field_fails_def get_bool_def split: sum.splits)

lemma parse_msg_fails_iff:
  "isl (parse_msg L msg) \<longleftrightarrow> list_ex (field_fails L msg) [''ts'', ''aTA'', ''aGAS'', ''valid'']"
  by (auto simp: parse_msg_def field_fails_float field_fails_bool split: sum.splits)

lemma malformed_iff: "malformed L raw \<longleftrightarrow> isl (parse_packet L raw)"
  by (simp add: malformed_def parse_packet_def parse_msg_fails_iff split: option.splits)

text \<open>
  Claim C1. A malformed packet makes \<^verbatim>\<open>parse_packet\<close> raise an exception that
  \<^verbatim>\<open>except Exception\<close> catches; the iteration adds one to \<^verbatim>\<open>bad\<close> and changes nothing
  else (neither the log, nor its buffer, nor the published file), and the loop goes on
  with the next iteration.
\<close>

theorem malformed_packet_is_rejected:
  assumes "malformed L raw" and "recv ev = Datagram raw addr"
  shows "(\<exists>e. parse_packet L raw = Inl e \<and> is_Exception e)
     \<and> step L C st ev = Next (st\<lparr>bad := bad st + 1\<rparr>)
     \<and> disk (st\<lparr>bad := bad st + 1\<rparr>) = disk st
     \<and> csv_buffer (st\<lparr>bad := bad st + 1\<rparr>) = csv_buffer st
     \<and> ok (st\<lparr>bad := bad st + 1\<rparr>) = ok st
     \<and> run L C st (ev # evs) = run L C (st\<lparr>bad := bad st + 1\<rparr>) evs"
proof -
  from assms(1) obtain e where e: "parse_packet L raw = Inl e"
    by (auto simp: malformed_iff isl_def)
  then have "is_Exception e" by (rule parse_packet_is_Exception)
  moreover have "step L C st ev = Next (st\<lparr>bad := bad st + 1\<rparr>)"
    using assms(2) e by (rule step_reject)
  ultimately show ?thesis using e by simp
qed

theorem malformed_packet_is_rejected_witness:
  \<open>malformed ref_lib ''{"ts": 1.5, "aTA": "high", "aGAS": 0.77, "valid": true}''
   \<and> malformed ref_lib ''{"ts": 1.5, "aTA": 0.42}''
   \<and> malformed ref_lib ''{"ts": 1.5, ''
   \<and> malformed ref_lib [CHR 0xFF, CHR 0xFE]
   \<and> step ref_lib example_config (startup example_config Map.empty 0)
        (example_event\<lparr>recv := Datagram ''{"ts": 1.5, "aTA": 0.42}'' ''127.0.0.1''\<rparr>)
      = Next ((startup example_config Map.empty 0)
                \<lparr>bad := bad (startup example_config Map.empty 0) + 1\<rparr>)\<close>
proof -
  have m: \<open>malformed ref_lib ''{"ts": 1.5, "aTA": 0.42}''\<close> by code_simp
  have r: \<open>recv (example_event\<lparr>recv := Datagram ''{"ts": 1.5, "aTA": 0.42}'' ''127.0.0.1''\<rparr>)
      = Datagram ''{"ts": 1.5, "aTA": 0.42}'' ''127.0.0.1''\<close> by simp
  have \<open>malformed ref_lib ''{"ts": 1.5, "aTA": "high", "aGAS": 0.77, "valid": true}''\<close>
    by code_simp
  moreover have \<open>malformed ref_lib ''{"ts": 1.5, ''\<close> by code_simp
  moreover have \<open>malformed ref_lib [CHR 0xFF, CHR 0xFE]\<close> by code_simp
  ultimately show ?thesis
    using m malformed_packet_is_rejected [OF m r, of example_config
        "startup example_config Map.empty 0" "[]"]
    by simp
qed

subsection \<open>Failures of the persistence\<close>

lemma run_append:
  "run L C st (xs @ ys) =
     (case run L C st xs of Next st' \<Rightarrow> run L C st' ys | Exit e st' \<Rightarrow> Exit e st')"
  by (induction xs arbitrary: st) (auto split: outcome.splits)

lemma accepted_SomeD:
  "accepted L ev = Some (r, emg) \<Longrightarrow>
     \<exists>raw addr. recv ev = Datagram raw addr \<and> parse_packet L raw = Inr emg \<and> r = recv_time ev"
  by (auto simp: accepted_def split: recv_result.splits sum.splits)

lemma step_not_accepted:
  assumes "accepted L ev = None"
  shows "ok (state_of (step L C st ev)) = ok st
     \<and> last_sample (state_of (step L C st ev)) = last_sample st
     \<and> disk (state_of (step L C st ev)) = disk st
     \<and> csv_buffer (state_of (step L C st ev)) = csv_buffer st"
proof (cases "recv ev")
  case (Datagram raw addr)
  with assms obtain e where "parse_packet L raw = Inl e"
    by (auto simp: accepted_def split: sum.splits)
  with Datagram have "step L C st ev = Next (st\<lparr>bad := bad st + 1\<rparr>)"
    by (rule step_reject)
  then show ?thesis by simp
next
  case (RecvRaises e)
  then show ?thesis by (simp add: step_recv_raises)
qed

text \<open>
  What the loop does with the other exceptions of the log append (\<^verbatim>\<open>writerow\<close> or
  \<^verbatim>\<open>flush\<close>) and of the publish: one that is not an instance of \<^verbatim>\<open>socket.timeout\<close>
  leaves the iteration and the loop, whatever the later events are, and \<^verbatim>\<open>main\<close> ends
  with it (with a clean stop if it is \<^verbatim>\<open>KeyboardInterrupt\<close>). No handler of the loop is
  written for them.
\<close>

lemma persistence_error_leaves_loop:
  assumes "accepted L ev = Some (r, emg)"
    and "persistence_fault L C emg ev = Some e"
    and "\<not> is_socket_timeout e"
  shows "(\<exists>st'. step L C st ev = Exit e st')
     \<and> (\<exists>st'. run L C st (ev # evs) = Exit e st')
     \<and> (run L C (startup C d t0) pre = Next st \<longrightarrow>
          fst (main L C d t0 (pre @ ev # evs))
            = (if e = KeyboardInterrupt then Some None else Some (Some e)))"
proof -
  from assms(1) obtain raw addr where
    rv: "recv ev = Datagram raw addr" "parse_packet L raw = Inr emg"
    by (auto dest: accepted_SomeD)
  from step_fault [OF rv assms(2), of st] assms(3)
  obtain st' where s: "step L C st ev = Exit e st'" by auto
  then have "run L C st (ev # evs) = Exit e st'" by simp
  moreover have "fst (main L C d t0 (pre @ ev # evs))
            = (if e = KeyboardInterrupt then Some None else Some (Some e))"
    if "run L C (startup C d t0) pre = Next st"
    using that s by (simp add: main_def run_append)
  ultimately show ?thesis using s by blast
qed

lemma persistence_error_leaves_loop_example:
  "accepted ref_lib (example_event\<lparr>flush_raises := Some OSError\<rparr>) = Some (10, example_sample)
   \<and> persistence_fault ref_lib example_config example_sample
        (example_event\<lparr>flush_raises := Some OSError\<rparr>) = Some OSError
   \<and> \<not> is_socket_timeout OSError
   \<and> \<not> continues (step ref_lib example_config (startup example_config Map.empty 0)
          (example_event\<lparr>flush_raises := Some OSError\<rparr>))
   \<and> fst (main ref_lib example_config Map.empty 0
          [example_event\<lparr>flush_raises := Some OSError\<rparr>, example_event])
       = Some (Some OSError)"
proof -
  have a: "accepted ref_lib (example_event\<lparr>flush_raises := Some OSError\<rparr>)
      = Some (10, example_sample)"
    by code_simp
  have p: "persistence_fault ref_lib example_config example_sample
        (example_event\<lparr>flush_raises := Some OSError\<rparr>) = Some OSError"
    by (simp add: persistence_fault_def example_event_def)
  have n: "\<not> is_socket_timeout OSError" by simp
  have r: "run ref_lib example_config (startup example_config Map.empty 0) []
      = Next (startup example_config Map.empty 0)" by simp
  from persistence_error_leaves_loop [OF a p n, of "startup example_config Map.empty 0"
      "[example_event]" Map.empty 0 "[]"] r a p
  show ?thesis by auto
qed

text \<open>
  Claim C7 says that any \<^verbatim>\<open>IOError\<close> raised by the log append or by the publish leaves
  the loop. The code does not do so for one class of them: \<^verbatim>\<open>socket.timeout\<close> is an
  \<^verbatim>\<open>OSError\<close>, and the \<^verbatim>\<open>try\<close> block of the handler \<^verbatim>\<open>except socket.timeout: pass\<close>, which
  is there for the timeout of \<^verbatim>\<open>recvfrom\<close>, reaches over the persistence calls too. When
  the flush of the log raises it for a decoded sample, the loop goes on: the log file
  holds the header only, nothing is published and \<^verbatim>\<open>ok\<close> is still 0.
\<close>

theorem timeout_from_log_flush_is_swallowed:
  "is_OSError SocketTimeout
   \<and> accepted ref_lib (example_event\<lparr>flush_raises := Some SocketTimeout\<rparr>)
       = Some (10, example_sample)
   \<and> persistence_fault ref_lib example_config example_sample
        (example_event\<lparr>flush_raises := Some SocketTimeout\<rparr>) = Some SocketTimeout
   \<and> continues (step ref_lib example_config (startup example_config Map.empty 0)
        (example_event\<lparr>flush_raises := Some SocketTimeout\<rparr>))
   \<and> disk (state_of (step ref_lib example_config (startup example_config Map.empty 0)
        (example_event\<lparr>flush_raises := Some SocketTimeout\<rparr>))) (csv_path ''out'')
       = Some csv_header
   \<and> disk (state_of (step ref_lib example_config (startup example_config Map.empty 0)
        (example_event\<lparr>flush_raises := Some SocketTimeout\<rparr>))) (latest_path ''out'')
       = None
   \<and> ok (state_of (step ref_lib example_config (startup example_config Map.empty 0)
        (example_event\<lparr>flush_raises := Some SocketTimeout\<rparr>))) = 0"
proof -
  let ?ev = "example_event\<lparr>flush_raises := Some SocketTimeout\<rparr>"
  let ?st = "startup example_config Map.empty 0"
  have a: "accepted ref_lib ?ev = Some (10, example_sample)"
    by code_simp
  have p: "persistence_fault ref_lib example_config example_sample ?ev = Some SocketTimeout"
    by (simp add: persistence_fault_def example_event_def)
  from a obtain raw addr where
    rv: "recv ?ev = Datagram raw addr" "parse_packet ref_lib raw = Inr example_sample"
    by (auto dest: accepted_SomeD)
  have s: "step ref_lib example_config ?st ?ev
      = Next (status_print example_config 10
                (?st\<lparr>csv_buffer := csv_buffer ?st @ csv_row ref_lib (10, example_sample)\<rparr>))"
    using rv by (simp add: step_def try_body_def example_event_def Let_def)
  have "disk ?st (csv_path ''out'') = Some csv_header"
    and "disk ?st (latest_path ''out'') = None" and "ok ?st = 0"
    by (simp_all add: startup_def flush_csv_def example_config_def Let_def)
  with s a p show ?thesis by simp
qed

text \<open>
  Claim C10. An iteration changes \<^verbatim>\<open>ok\<close> or \<^verbatim>\<open>last_sample\<close> only when a packet has decoded
  and the log append, its flush and the publish have all completed: the row is then in
  the log file, nothing is left in the buffer and the published file holds the
  sample. When one of the three raises, \<^verbatim>\<open>ok\<close> and \<^verbatim>\<open>last_sample\<close> are as before.
\<close>

theorem accepted_counter_follows_persistence:
  "(ok (state_of (step L C st ev)) \<noteq> ok st
      \<or> last_sample (state_of (step L C st ev)) \<noteq> last_sample st \<longrightarrow>
    (\<exists>emg. accepted L ev = Some (recv_time ev, emg)
       \<and> persistence_fault L C emg ev = None
       \<and> ok (state_of (step L C st ev)) = ok st + 1
       \<and> last_sample (state_of (step L C st ev)) = Some emg
       \<and> csv_buffer (state_of (step L C st ev)) = []
       \<and> disk (state_of (step L C st ev)) (csv_path (outdir C))
           = Some ((case disk st (csv_path (outdir C)) of None \<Rightarrow> [] | Some old \<Rightarrow> old)
                    @ csv_buffer st @ csv_row L (recv_time ev, emg))
       \<and> disk (state_of (step L C st ev)) (latest_path (outdir C))
           = Some (snapshot_text L emg)))
   \<and> (accepted L ev = Some (r, emg) \<and> persistence_fault L C emg ev = Some e \<longrightarrow>
        ok (state_of (step L C st ev)) = ok st
        \<and> last_sample (state_of (step L C st ev)) = last_sample st)"
proof (intro conjI impI)
  assume ch: "ok (state_of (step L C st ev)) \<noteq> ok st
      \<or> last_sample (state_of (step L C st ev)) \<noteq> last_sample st"
  have "accepted L ev \<noteq> None"
  proof
    assume "accepted L ev = None"
    from step_not_accepted [OF this, of C st] ch show False by simp
  qed
  then obtain r emg where a: "accepted L ev = Some (r, emg)"
    by (cases "accepted L ev") auto
  then obtain raw addr where
    rv: "recv ev = Datagram raw addr" "parse_packet L raw = Inr emg" and r: "r = recv_time ev"
    by (auto dest: accepted_SomeD)
  have nf: "persistence_fault L C emg ev = None"
  proof (rule ccontr)
    assume "persistence_fault L C emg ev \<noteq> None"
    then obtain e where "persistence_fault L C emg ev = Some e" by auto
    from step_fault [OF rv this, of st] ch show False
      by (auto split: if_splits)
  qed
  from step_accept [OF rv nf, of st] a r nf
  show "\<exists>emg. accepted L ev = Some (recv_time ev, emg)
       \<and> persistence_fault L C emg ev = None
       \<and> ok (state_of (step L C st ev)) = ok st + 1
       \<and> last_sample (state_of (step L C st ev)) = Some emg
       \<and> csv_buffer (state_of (step L C st ev)) = []
       \<and> disk (state_of (step L C st ev)) (csv_path (outdir C))
           = Some ((case disk st (csv_path (outdir C)) of None \<Rightarrow> [] | Some old \<Rightarrow> old)
                    @ csv_buffer st @ csv_row L (recv_time ev, emg))
       \<and> disk (state_of (step L C st ev)) (latest_path (outdir C))
           = Some (snapshot_text L emg)"
    by auto
next
  assume h: "accepted L ev = Some (r, emg) \<and> persistence_fault L C emg ev = Some e"
  then obtain raw addr where
    rv: "recv ev = Datagram raw addr" "parse_packet L raw = Inr emg"
    by (auto dest: accepted_SomeD)
  from h have pf: "persistence_fault L C emg ev = Some e" by simp
  from step_fault [OF rv pf, of st]
  show "ok (state_of (step L C st ev)) = ok st"
    and "last_sample (state_of (step L C st ev)) = last_sample st"
    by (auto split: if_splits)
qed

theorem accepted_counter_follows_persistence_witness:
  "accepted ref_lib example_event = Some (10, example_sample)
   \<and> ok (state_of (step ref_lib example_config (startup example_config Map.empty 0)
            example_event)) = 1
   \<and> disk (state_of (step ref_lib example_config (startup example_config Map.empty 0)
            example_event)) (latest_path ''out'') = Some (snapshot_text ref_lib example_sample)
   \<and> persistence_fault ref_lib example_config example_sample
        (example_event\<lparr>publish_raises := Some (20, OSError)\<rparr>) = Some OSError
   \<and> ok (state_of (step ref_lib example_config (startup example_config Map.empty 0)
            (example_event\<lparr>publish_raises := Some (20, OSError)\<rparr>))) = 0
   \<and> last_sample (state_of (step ref_lib example_config (startup example_config Map.empty 0)
            (example_event\<lparr>publish_raises := Some (20, OSError)\<rparr>))) = None"
proof -
  let ?st = "startup example_config Map.empty 0"
  let ?ev = "example_event\<lparr>publish_raises := Some (20, OSError)\<rparr>"
  have a: "accepted ref_lib example_event = Some (10, example_sample)" by code_simp
  have a': "accepted ref_lib ?ev = Some (10, example_sample)" by code_simp
  have len: "length (atomic_write_json_ops ref_lib (latest_path ''out'') example_sample) = 21"
    by (simp add: atomic_write_json_ops_def dump_chunks_def Let_def)
  have p: "persistence_fault ref_lib example_config example_sample ?ev = Some OSError"
    by (simp add: persistence_fault_def example_event_def example_config_def len)
  have p0: "persistence_fault ref_lib example_config example_sample example_event = None"
    by (simp add: persistence_fault_def example_event_def)
  have st0: "ok ?st = 0" "last_sample ?st = None"
    by (simp_all add: startup_def flush_csv_def Let_def)
  from a obtain raw addr where
    rv: "recv example_event = Datagram raw addr" "parse_packet ref_lib raw = Inr example_sample"
    by (auto dest: accepted_SomeD)
  from step_accept [OF rv p0, of ?st] st0
  have ch: "ok (state_of (step ref_lib example_config ?st example_event)) \<noteq> ok ?st"
    by auto
  have rt: "recv_time example_event = 10" by (simp add: example_event_def)
  from accepted_counter_follows_persistence
    [of ref_lib example_config ?st example_event 10 example_sample OSError] ch a st0 rt
  have one: "ok (state_of (step ref_lib example_config ?st example_event)) = 1
     \<and> disk (state_of (step ref_lib example_config ?st example_event)) (latest_path ''out'')
         = Some (snapshot_text ref_lib example_sample)"
    by (auto simp: example_config_def)
  from accepted_counter_follows_persistence
    [of ref_lib example_config ?st ?ev 10 example_sample OSError] a' p st0
  have two: "ok (state_of (step ref_lib example_config ?st ?ev)) = 0
     \<and> last_sample (state_of (step ref_lib example_config ?st ?ev)) = None"
    by simp
  from a p one two show ?thesis by simp
qed

subsection \<open>The log and the snapshot after a run\<close>

lemma step_quiet:
  assumes "quiet ev"
  shows "\<exists>st'. step L C st ev = Next st'
     \<and> ok st' = ok st + (case accepted L ev of None \<Rightarrow> 0 | Some r \<Rightarrow> 1)
     \<and> csv_buffer st' = (case accepted L ev of None \<Rightarrow> csv_buffer st | Some r \<Rightarrow> [])
     \<and> disk st' (csv_path (outdir C))
         = (case accepted L ev of
              None \<Rightarrow> disk st (csv_path (outdir C))
            | Some r \<Rightarrow> Some ((case disk st (csv_path (outdir C)) of None \<Rightarrow> [] | Some old \<Rightarrow> old)
                           @ csv_buffer st @ csv_row L r))
     \<and> disk st' (latest_path (outdir C))
         = (case accepted L ev of
              None \<Rightarrow> disk st (latest_path (outdir C))
            | Some r \<Rightarrow> Some (snapshot_text L (snd r)))
     \<and> last_sample st'
         = (case accepted L ev of None \<Rightarrow> last_sample st | Some r \<Rightarrow> Some (snd r))"
proof (cases "accepted L ev")
  case None
  have c: "continues (step L C st ev)"
  proof (cases "recv ev")
    case (Datagram raw addr)
    with None obtain e where "parse_packet L raw = Inl e"
      by (auto simp: accepted_def split: sum.splits)
    with Datagram show ?thesis by (simp add: step_reject)
  next
    case (RecvRaises e)
    with assms show ?thesis by (simp add: quiet_def step_recv_raises)
  qed
  then obtain st' where s: "step L C st ev = Next st'"
    by (cases "step L C st ev") auto
  with step_not_accepted [OF None, of C st] None show ?thesis by simp
next
  case (Some r)
  then obtain raw addr where
    rv: "recv ev = Datagram raw addr" "parse_packet L raw = Inr (snd r)"
    and r: "r = (recv_time ev, snd r)"
    by (cases r) (auto dest: accepted_SomeD)
  from assms have "persistence_fault L C (snd r) ev = None"
    by (simp add: quiet_def persistence_fault_def)
  from step_accept [OF rv this, of st] r Some show ?thesis by auto
qed

lemma run_quiet:
  assumes "\<forall>ev\<in>set evs. quiet ev" and "csv_buffer st = []"
    and "disk st (csv_path (outdir C)) = Some base"
  shows "\<exists>st'. run L C st evs = Next st' \<and> csv_buffer st' = []
     \<and> ok st' = ok st + int (length (List.map_filter (accepted L) evs))
     \<and> disk st' (csv_path (outdir C))
         = Some (base @ concat (map (csv_row L) (List.map_filter (accepted L) evs)))
     \<and> disk st' (latest_path (outdir C))
         = (if List.map_filter (accepted L) evs = [] then disk st (latest_path (outdir C))
            else Some (snapshot_text L (snd (last (List.map_filter (accepted L) evs)))))
     \<and> last_sample st'
         = (if List.map_filter (accepted L) evs = [] then last_sample st
            else Some (snd (last (List.map_filter (accepted L) evs))))"
  using assms
proof (induction evs arbitrary: st base)
  case Nil
  then show ?case by (simp add: List.map_filter_simps)
next
  case (Cons ev evs)
  from Cons.prems(1) have q: "quiet ev" and qs: "\<forall>ev\<in>set evs. quiet ev" by simp_all
  from step_quiet [OF q, of L C st] obtain st1 where
    s: "step L C st ev = Next st1"
    and k: "ok st1 = ok st + (case accepted L ev of None \<Rightarrow> 0 | Some r \<Rightarrow> 1)"
    and b: "csv_buffer st1 = (case accepted L ev of None \<Rightarrow> csv_buffer st | Some r \<Rightarrow> [])"
    and c: "disk st1 (csv_path (outdir C))
         = (case accepted L ev of
              None \<Rightarrow> disk st (csv_path (outdir C))
            | Some r \<Rightarrow> Some ((case disk st (csv_path (outdir C)) of None \<Rightarrow> [] | Some old \<Rightarrow> old)
                           @ csv_buffer st @ csv_row L r))"
    and l: "disk st1 (latest_path (outdir C))
         = (case accepted L ev of
              None \<Rightarrow> disk st (latest_path (outdir C))
            | Some r \<Rightarrow> Some (snapshot_text L (snd r)))"
    and m: "last_sample st1
         = (case accepted L ev of None \<Rightarrow> last_sample st | Some r \<Rightarrow> Some (snd r))"
    by blast
  show ?case
  proof (cases "accepted L ev")
    case None
    with b c Cons.prems have b1: "csv_buffer st1 = []"
      and c1: "disk st1 (csv_path (outdir C)) = Some base" by simp_all
    from Cons.IH [OF qs b1 c1] s k l m None show ?thesis
      by (auto simp: List.map_filter_simps)
  next
    case (Some r)
    with b c Cons.prems have b1: "csv_buffer st1 = []"
      and c1: "disk st1 (csv_path (outdir C)) = Some (base @ csv_row L r)" by simp_all
    from Cons.IH [OF qs b1 c1] s k l m Some show ?thesis
      by (auto simp: List.map_filter_simps)
  qed
qed

lemma startup_new:
  assumes "d (csv_path (outdir C)) = None"
  shows "csv_buffer (startup C d t0) = []"
    and "disk (startup C d t0) (csv_path (outdir C)) = Some csv_header"
    and "disk (startup C d t0) (latest_path (outdir C)) = d (latest_path (outdir C))"
    and "ok (startup C d t0) = 0" and "bad (startup C d t0) = 0"
    and "last_sample (startup C d t0) = None"
  using assms by (simp_all add: startup_def flush_csv_def Let_def)

lemma map_filter_all:
  "\<forall>x\<in>set xs. f x \<noteq> None \<Longrightarrow> length (List.map_filter f xs) = length xs"
  by (induction xs) (auto simp: List.map_filter_simps)

text \<open>
  Claim C2. Start with no log file. After any sequence of iterations in which nothing
  raises but the receive timeout, the loop is still running, the log file is the
  header followed by one row for each packet that decoded, in the order of arrival
  (the receive time, then the sample), nothing is left in the buffer, \<^verbatim>\<open>ok\<close> counts the
  rows, and, if there is a row, the published file holds the sample of the last one.
  When all \<open>N\<close> iterations receive a packet that decodes, there are \<open>N\<close> rows.
\<close>

theorem log_and_snapshot_after_accepted_packets:
  assumes "d (csv_path (outdir C)) = None" and "\<forall>ev\<in>set evs. quiet ev"
  shows "fst (main L C d t0 evs) = None
     \<and> disk (snd (main L C d t0 evs)) (csv_path (outdir C))
         = Some (csv_header @ concat (map (csv_row L) (List.map_filter (accepted L) evs)))
     \<and> csv_buffer (snd (main L C d t0 evs)) = []
     \<and> ok (snd (main L C d t0 evs)) = int (length (List.map_filter (accepted L) evs))
     \<and> (List.map_filter (accepted L) evs \<noteq> [] \<longrightarrow>
          disk (snd (main L C d t0 evs)) (latest_path (outdir C))
            = Some (snapshot_text L (snd (last (List.map_filter (accepted L) evs))))
          \<and> last_sample (snd (main L C d t0 evs))
            = Some (snd (last (List.map_filter (accepted L) evs))))
     \<and> ((\<forall>ev\<in>set evs. accepted L ev \<noteq> None) \<longrightarrow>
          length (List.map_filter (accepted L) evs) = length evs)"
proof -
  note sn = startup_new [of d C t0, OF assms(1)]
  from run_quiet [OF assms(2) sn(1) sn(2), of L]
  obtain st' where r: "run L C (startup C d t0) evs = Next st'"
    and f: "csv_buffer st' = []"
      "ok st' = ok (startup C d t0) + int (length (List.map_filter (accepted L) evs))"
      "disk st' (csv_path (outdir C))
         = Some (csv_header @ concat (map (csv_row L) (List.map_filter (accepted L) evs)))"
      "disk st' (latest_path (outdir C))
         = (if List.map_filter (accepted L) evs = []
            then disk (startup C d t0) (latest_path (outdir C))
            else Some (snapshot_text L (snd (last (List.map_filter (accepted L) evs)))))"
      "last_sample st'
         = (if List.map_filter (accepted L) evs = [] then last_sample (startup C d t0)
            else Some (snd (last (List.map_filter (accepted L) evs))))"
    by blast
  from r have "main L C d t0 evs = (None, st')" by (simp add: main_def)
  with f sn(4) show ?thesis
    by (simp add: map_filter_all)
qed


theorem log_and_snapshot_after_accepted_packets_witness:
  \<open>quiet example_event
   \<and> quiet (example_event\<lparr>recv :=
        Datagram ''{"ts": 2.5, "aTA": -3, "aGAS": "0.5", "valid": "no"}'' ''127.0.0.1'',
        recv_time := 10.5\<rparr>)
   \<and> fst (main ref_lib example_config Map.empty 0
        [example_event,
         example_event\<lparr>recv :=
           Datagram ''{"ts": 2.5, "aTA": -3, "aGAS": "0.5", "valid": "no"}'' ''127.0.0.1'',
           recv_time := 10.5\<rparr>]) = None
   \<and> disk (snd (main ref_lib example_config Map.empty 0
        [example_event,
         example_event\<lparr>recv :=
           Datagram ''{"ts": 2.5, "aTA": -3, "aGAS": "0.5", "valid": "no"}'' ''127.0.0.1'',
           recv_time := 10.5\<rparr>])) ''out/emg_log.csv''
       = Some (''recv_ts,ts,aTA,aGAS,valid'' @ [CHR 0x0D, CHR 0x0A]
               @ ''10.0,1.5,0.42,0.77,True'' @ [CHR 0x0D, CHR 0x0A]
               @ ''10.5,2.5,0.0,0.5,False'' @ [CHR 0x0D, CHR 0x0A])
   \<and> disk (snd (main ref_lib example_config Map.empty 0
        [example_event,
         example_event\<lparr>recv :=
           Datagram ''{"ts": 2.5, "aTA": -3, "aGAS": "0.5", "valid": "no"}'' ''127.0.0.1'',
           recv_time := 10.5\<rparr>])) ''out/emg_latest.json''
       = Some (''{"ts": 2.5, "aTA": 0.0, "aGAS": 0.5, "valid": false}'' @ [CHR 0x0A])\<close>
proof -
  let ?e2 = \<open>example_event\<lparr>recv :=
        Datagram ''{"ts": 2.5, "aTA": -3, "aGAS": "0.5", "valid": "no"}'' ''127.0.0.1'',
        recv_time := 10.5\<rparr>\<close>
  let ?s2 = "\<lparr>ts = Fin 2.5, aTA = Fin 0, aGAS = Fin 0.5, valid = False\<rparr>"
  have q: "\<forall>ev\<in>set [example_event, ?e2]. quiet ev"
    by (simp add: quiet_def example_event_def)
  have d: "Map.empty (csv_path (outdir example_config)) = None" by simp
  have a1: "accepted ref_lib example_event = Some (10, example_sample)" by code_simp
  have a2: "accepted ref_lib ?e2 = Some (10.5, ?s2)" by code_simp
  have rows: "List.map_filter (accepted ref_lib) [example_event, ?e2]
      = [(10, example_sample), (10.5, ?s2)]"
    by (simp only: List.map_filter_simps a1 a2 option.case)
  have h: "csv_header = ''recv_ts,ts,aTA,aGAS,valid'' @ [CHR 0x0D, CHR 0x0A]" by code_simp
  have r1: "csv_row ref_lib (10, example_sample)
      = ''10.0,1.5,0.42,0.77,True'' @ [CHR 0x0D, CHR 0x0A]" by code_simp
  have r2: "csv_row ref_lib (10.5, ?s2) = ''10.5,2.5,0.0,0.5,False'' @ [CHR 0x0D, CHR 0x0A]"
    by code_simp
  have s2: \<open>snapshot_text ref_lib ?s2
      = ''{"ts": 2.5, "aTA": 0.0, "aGAS": 0.5, "valid": false}'' @ [CHR 0x0A]\<close>
    by code_simp
  have p1: "csv_path (outdir example_config) = ''out/emg_log.csv''"
    and p2: "latest_path (outdir example_config) = ''out/emg_latest.json''"
    by (simp_all add: example_config_def csv_path_def latest_path_def path_join_def)
  from log_and_snapshot_after_accepted_packets [where L = ref_lib and ?t0.0 = 0 and C = example_config and d = Map.empty, OF d q]
  show ?thesis
    unfolding rows p1 p2 using q h r1 r2 s2 by simp
qed


section \<open>The domain of the numeric coercion\<close>

lemma bit_length_upper: "a < 2 ^ bit_length a"
proof (induction a rule: bit_length.induct)
  case (1 n)
  show ?case
  proof (cases "n = 0")
    case True
    then show ?thesis by simp
  next
    case False
    with 1 have "n div 2 < 2 ^ bit_length (n div 2)" by simp
    then have "n < 2 * 2 ^ bit_length (n div 2)" by linarith
    with False show ?thesis by (simp add: bit_length_pos)
  qed
qed

lemma bit_length_lower: "0 < a \<Longrightarrow> 2 ^ (bit_length a - 1) \<le> a"
proof (induction a rule: bit_length.induct)
  case (1 n)
  show ?case
  proof (cases "n div 2 = 0")
    case True
    with 1(2) have "n = 1" by linarith
    then show ?thesis by simp
  next
    case False
    with 1 have ih: "2 ^ (bit_length (n div 2) - 1) \<le> n div 2" by simp
    from False have "0 < bit_length (n div 2)" by (simp add: bit_length_pos)
    then have "bit_length n - 1 = Suc (bit_length (n div 2) - 1)"
      using 1(2) by (simp add: bit_length_pos)
    with ih show ?thesis by simp
  qed
qed

text \<open>Rounding to 53 bits reaches \<open>2 ^ E\<close> exactly from \<open>2 ^ E - 2 ^ (E - 54)\<close> on.\<close>

lemma round_nat_bound:
  fixes a k E :: nat
  assumes k: "53 < k" and lo: "2 ^ (k - 1) \<le> a" and hi: "a < 2 ^ k" and E: "54 \<le> E"
  defines "P \<equiv> 2 ^ (k - 53)" and "h \<equiv> 2 ^ (k - 53 - 1)"
  defines "q \<equiv> a div P" and "r \<equiv> a mod P"
  defines "q' \<equiv> (if h < r \<or> (r = h \<and> odd q) then q + 1 else q)"
  shows "q' * P < 2 ^ E \<longleftrightarrow> a + 2 ^ (E - 54) < 2 ^ E"
proof -
  have P2: "P = 2 * h"
    using k by (simp add: P_def h_def flip: power_Suc)
  have hpos: "0 < h" by (simp add: h_def)
  have kP: "(2::nat) ^ k = 2 ^ 53 * P"
  proof -
    have "(2::nat) ^ (53 + (k - 53)) = 2 ^ 53 * 2 ^ (k - 53)" by (rule power_add)
    moreover have "53 + (k - 53) = k" using k by simp
    ultimately show ?thesis by (simp add: P_def)
  qed
  have k1P: "(2::nat) ^ (k - 1) = 2 ^ 52 * P"
  proof -
    have "(2::nat) ^ (52 + (k - 53)) = 2 ^ 52 * 2 ^ (k - 53)" by (rule power_add)
    moreover have "52 + (k - 53) = k - 1" using k by simp
    ultimately show ?thesis by (simp add: P_def)
  qed
  have a: "a = q * P + r" by (simp add: q_def r_def)
  have rP: "r < P" by (simp add: r_def P_def)
  have qhi: "q < 2 ^ 53"
    using hi kP by (simp add: q_def less_mult_imp_div_less mult.commute)
  have qlo: "2 ^ 52 \<le> q"
  proof -
    have "2 ^ 52 * P div P \<le> a div P" using lo k1P by (intro div_le_mono) simp
    then show ?thesis by (simp add: q_def P_def)
  qed
  have q'lo: "q \<le> q'" and q'hi: "q' \<le> q + 1" by (simp_all add: q'_def)
  consider "k < E" | "E < k" | "k = E" by linarith
  then show ?thesis
  proof cases
    case 1
    then have kE: "(2::nat) ^ k \<le> 2 ^ (E - 1)" by (intro power_increasing) auto
    have EE: "(2::nat) ^ E = 2 ^ (E - 1) + 2 ^ (E - 1)"
      using E by (cases E) simp_all
    have "(2::nat) ^ (E - 54) \<le> 2 ^ (E - 1)" by (intro power_increasing) auto
    then have r: "a + 2 ^ (E - 54) < 2 ^ E" using hi kE EE by linarith
    have "q' * P \<le> 2 ^ 53 * P" using q'hi qhi by (intro mult_le_mono1) linarith
    moreover have "0 < (2::nat) ^ (E - 1)" by simp
    ultimately have "q' * P < 2 ^ E" using kP kE EE by linarith
    with r show ?thesis by simp
  next
    case 2
    then have kE: "(2::nat) ^ E \<le> 2 ^ (k - 1)" by (intro power_increasing) auto
    then have l: "\<not> a + 2 ^ (E - 54) < 2 ^ E" using lo by linarith
    have "2 ^ 52 * P \<le> q' * P" using qlo q'lo by (intro mult_le_mono1) linarith
    then have "\<not> q' * P < 2 ^ E" using kE k1P by linarith
    with l show ?thesis by simp
  next
    case 3
    have hE: "h = 2 ^ (E - 54)" using 3 by (simp add: h_def)
    have EP: "(2::nat) ^ E = 2 ^ 53 * P" using kP 3 by simp
    have l: "q' * P < 2 ^ E \<longleftrightarrow> q' < 2 ^ 53"
      unfolding EP using P2 hpos by simp
    show ?thesis
    proof (cases "q = 2 ^ 53 - 1")
      case True
      then have "odd q" by simp
      then have q': "q' < 2 ^ 53 \<longleftrightarrow> r < h" using True by (auto simp: q'_def)
      have "(2 ^ 53 - 1) * P + P = (2::nat) ^ 53 * P"
        by (simp add: algebra_simps)
      then have "a + h < 2 ^ E \<longleftrightarrow> r < h"
        unfolding EP a True using P2 by linarith
      with l q' hE show ?thesis by simp
    next
      case False
      with qhi have q2: "q + 2 \<le> 2 ^ 53" by linarith
      then have "q' < 2 ^ 53" using q'hi by linarith
      moreover have "(q + 2) * P \<le> 2 ^ 53 * P" using q2 by (intro mult_le_mono1)
      then have "q * P + 2 * P \<le> 2 ^ E" unfolding EP by (simp add: algebra_simps)
      then have "a + h < 2 ^ E" unfolding a using rP P2 hpos by linarith
      ultimately show ?thesis using l hE by simp
    qed
  qed
qed

lemma float_of_int_ok_iff: "isl (float_of_int n) \<longleftrightarrow> 2 ^ 1024 - 2 ^ 970 \<le> \<bar>n\<bar>"
proof -
  define a where "a = nat \<bar>n\<bar>"
  define k where "k = bit_length a"
  have na: "\<bar>n\<bar> = int a" by (simp add: a_def)
  have hi: "a < 2 ^ k" unfolding k_def by (rule bit_length_upper)
  have tr: "(2::int) ^ 1024 \<le> int m \<longleftrightarrow> 2 ^ 1024 \<le> m" for m
  proof -
    have "(2::int) ^ 1024 = int (2 ^ 1024)" by simp
    then show ?thesis by (simp only: of_nat_le_iff)
  qed
  show ?thesis
  proof (cases "k \<le> 53")
    case True
    then have "(2::nat) ^ k \<le> 2 ^ 53" by (intro power_increasing) auto
    with hi have "a < 2 ^ 53" by linarith
    then have small: "\<bar>n\<bar> < 2 ^ 53" unfolding na by simp
    have "round53 n = n"
      using True by (simp add: round53_def Let_def a_def k_def)
    then have "\<not> isl (float_of_int n)"
      using small by (simp add: float_of_int_def)
    moreover have "\<not> 2 ^ 1024 - 2 ^ 970 \<le> \<bar>n\<bar>" using small by simp
    ultimately show ?thesis by simp
  next
    case False
    then have k: "53 < k" by simp
    have "a \<noteq> 0"
    proof
      assume "a = 0"
      then have "k = 0" by (simp add: k_def)
      with k show False by simp
    qed
    then have apos: "0 < a" by simp
    then have lo: "2 ^ (k - 1) \<le> a" unfolding k_def by (rule bit_length_lower)
    define q' where "q' = (if 2 ^ (k - 53 - 1) < a mod 2 ^ (k - 53)
        \<or> (a mod 2 ^ (k - 53) = 2 ^ (k - 53 - 1) \<and> odd (a div 2 ^ (k - 53)))
      then a div 2 ^ (k - 53) + 1 else a div 2 ^ (k - 53))"
    have b: "q' * 2 ^ (k - 53) < 2 ^ 1024 \<longleftrightarrow> a + 2 ^ (1024 - 54) < 2 ^ 1024"
      unfolding q'_def by (rule round_nat_bound [OF k lo hi]) simp
    from apos have "n \<noteq> 0" by (auto simp: a_def)
    then have sg: "\<bar>sgn n\<bar> = 1" by (simp add: sgn_if)
    have "round53 n = sgn n * int (q' * 2 ^ (k - 53))"
      using False unfolding q'_def k_def a_def by (simp add: round53_def Let_def)
    then have "\<bar>round53 n\<bar> = int (q' * 2 ^ (k - 53))"
      using sg by (simp add: abs_mult)
    then have "isl (float_of_int n) \<longleftrightarrow> (2::int) ^ 1024 \<le> int (q' * 2 ^ (k - 53))"
      by (simp add: float_of_int_def Let_def)
    also have "\<dots> \<longleftrightarrow> 2 ^ 1024 \<le> q' * 2 ^ (k - 53)" by (rule tr)
    also have "\<dots> \<longleftrightarrow> 2 ^ 1024 \<le> a + 2 ^ 970" using b by (simp add: not_less [symmetric])
    also have "\<dots> \<longleftrightarrow> (2::int) ^ 1024 \<le> int (a + 2 ^ 970)" by (rule tr [symmetric])
    also have "\<dots> \<longleftrightarrow> (2::int) ^ 1024 \<le> int a + 2 ^ 970" by simp
    also have "\<dots> \<longleftrightarrow> 2 ^ 1024 - 2 ^ 970 \<le> int a" by linarith
    finally show ?thesis unfolding na .
  qed
qed


lemma get_float_fails:
  "getitem msg k = Inr v \<Longrightarrow> isl (to_float L v) \<Longrightarrow> isl (get_float L msg k)"
  by (simp add: get_float_def)

text \<open>
  Claim C6, as amended. \<^verbatim>\<open>to_float\<close> succeeds exactly on a float, on a bool (1.0 for true,
  0.0 for false: a bool is an \<^verbatim>\<open>int\<close>), on an int whose absolute value is below
  \<open>2 ^ 1024 - 2 ^ 970\<close> (beyond that \<^verbatim>\<open>float\<close> raises \<^verbatim>\<open>OverflowError\<close>), and on a string
  whose stripped text \<^verbatim>\<open>float\<close> parses. On every other value it fails, and when it fails
  on the value of \<^verbatim>\<open>ts\<close>, \<^verbatim>\<open>aTA\<close> or \<^verbatim>\<open>aGAS\<close> the decoding of the message fails.
\<close>

theorem numeric_coercion_domain:
  "(\<not> isl (to_float L v) \<longleftrightarrow>
      (case v of
         JFloat x \<Rightarrow> True
       | JBool b \<Rightarrow> True
       | JInt n \<Rightarrow> \<bar>n\<bar> < 2 ^ 1024 - 2 ^ 970
       | JStr s \<Rightarrow> str_to_float L (py_strip s) \<noteq> None
       | JNull \<Rightarrow> False | JArr xs \<Rightarrow> False | JObj kvs \<Rightarrow> False))
   \<and> to_float L (JFloat x) = Inr x
   \<and> to_float L (JBool b) = Inr (Fin (if b then 1 else 0))
   \<and> (str_to_float L (py_strip s) = Some y \<longrightarrow> to_float L (JStr s) = Inr y)
   \<and> (k \<in> {''ts'', ''aTA'', ''aGAS''} \<and> getitem msg k = Inr v \<and> isl (to_float L v)
        \<longrightarrow> isl (parse_msg L msg))"
proof (intro conjI impI)
  show "\<not> isl (to_float L v) \<longleftrightarrow>
      (case v of
         JFloat x \<Rightarrow> True
       | JBool b \<Rightarrow> True
       | JInt n \<Rightarrow> \<bar>n\<bar> < 2 ^ 1024 - 2 ^ 970
       | JStr s \<Rightarrow> str_to_float L (py_strip s) \<noteq> None
       | JNull \<Rightarrow> False | JArr xs \<Rightarrow> False | JObj kvs \<Rightarrow> False)"
  proof (cases v)
    case (JInt n)
    then show ?thesis using float_of_int_ok_iff [of n] by (simp add: not_le)
  next
    case (JBool b)
    then show ?thesis by (simp add: float_of_bool)
  qed (auto split: option.splits)
next
  show "to_float L (JFloat x) = Inr x" by simp
next
  show "to_float L (JBool b) = Inr (Fin (if b then 1 else 0))"
    using float_of_bool [of b] by (cases b) simp_all
next
  assume "str_to_float L (py_strip s) = Some y"
  then show "to_float L (JStr s) = Inr y" by simp
next
  assume h: "k \<in> {''ts'', ''aTA'', ''aGAS''} \<and> getitem msg k = Inr v \<and> isl (to_float L v)"
  then have "isl (get_float L msg k)" by (simp add: get_float_fails)
  with h show "isl (parse_msg L msg)"
    by (auto simp: parse_msg_def isl_def split: sum.splits)
qed

theorem numeric_coercion_domain_witness:
  \<open>str_to_float ref_lib (py_strip '' 0.5 '') = Some (Fin 0.5)
   \<and> to_float ref_lib (JStr '' 0.5 '') = Inr (Fin 0.5)
   \<and> \<not> isl (to_float ref_lib (JInt 3))
   \<and> getitem (JObj [(''ts'', JFloat (Fin 1.5)), (''aTA'', JNull)]) ''aTA'' = Inr JNull
   \<and> isl (to_float ref_lib JNull)
   \<and> isl (parse_msg ref_lib (JObj [(''ts'', JFloat (Fin 1.5)), (''aTA'', JNull)]))\<close>
proof -
  have p: "str_to_float ref_lib (py_strip '' 0.5 '') = Some (Fin 0.5)" by code_simp
  have g: "getitem (JObj [(''ts'', JFloat (Fin 1.5)), (''aTA'', JNull)]) ''aTA'' = Inr JNull"
    by simp
  have n: "isl (to_float ref_lib JNull)" by simp
  note t1 = numeric_coercion_domain [of ref_lib "JInt 3" _ _ "'' 0.5 ''" "Fin 0.5"]
  note t2 = numeric_coercion_domain [of ref_lib JNull _ _ _ _ "''aTA''"
      "JObj [(''ts'', JFloat (Fin 1.5)), (''aTA'', JNull)]"]
  from t1 p have "to_float ref_lib (JStr '' 0.5 '') = Inr (Fin 0.5)
      \<and> \<not> isl (to_float ref_lib (JInt 3))" by simp
  moreover from t2 g n
  have "isl (parse_msg ref_lib (JObj [(''ts'', JFloat (Fin 1.5)), (''aTA'', JNull)]))"
    by simp
  ultimately show ?thesis using p g n by simp
qed

text \<open>
  Claim C6 as stated fails in both directions: the integer \<open>2 ^ 1024\<close> is a numeric value
  on which the coercion raises \<^verbatim>\<open>OverflowError\<close>, and the JSON value \<^verbatim>\<open>true\<close>, which is
  neither a number nor a string, is coerced to 1.0.
\<close>

theorem numeric_coercion_counterexample:
  "to_float ref_lib (JInt (2 ^ 1024)) = Inl OverflowError
   \<and> to_float ref_lib (JBool True) = Inr (Fin 1)"
proof -
  have "isl (float_of_int (2 ^ 1024))"
    by (simp add: float_of_int_ok_iff)
  then obtain e where e: "float_of_int (2 ^ 1024) = Inl e" by (auto simp: isl_def)
  then have "e = OverflowError" by (rule float_of_int_error)
  with e show ?thesis using float_of_bool [of True] by simp
qed

section \<open>Publishing and decoding again\<close>

text \<open>
  Claim C8. Take a sample whose activations lie in the interval from 0.0 to 1.0, and a
  library whose \<^verbatim>\<open>json.loads\<close> reads back, from the text that the publisher writes, the
  dict that was written. Then \<^verbatim>\<open>parse_packet\<close> on the published text returns the
  sample, field for field. The sample of the claim is such a sample.
\<close>

theorem publish_then_decode_round_trip:
  assumes "in01 (aTA s)" and "in01 (aGAS s)"
    and "utf8_decode L (snapshot_text L s) = Some (snapshot_text L s)"
    and "json_loads L (snapshot_text L s)
           = Some (JObj [(''ts'', JFloat (ts s)), (''aTA'', JFloat (aTA s)),
                         (''aGAS'', JFloat (aGAS s)), (''valid'', JBool (valid s))])"
  shows "parse_packet L (snapshot_text L s)
           = Inr \<lparr>ts = ts s, aTA = aTA s, aGAS = aGAS s, valid = valid s\<rparr>"
  using assms
  by (simp add: parse_packet_def parse_msg_def get_float_def get_bool_def clamp01_inside)

theorem publish_then_decode_round_trip_witness:
  \<open>in01 (aTA example_sample) \<and> in01 (aGAS example_sample)
   \<and> snapshot_text ref_lib example_sample
       = ''{"ts": 1.5, "aTA": 0.42, "aGAS": 0.77, "valid": true}'' @ [CHR 0x0A]
   \<and> utf8_decode ref_lib (snapshot_text ref_lib example_sample)
       = Some (snapshot_text ref_lib example_sample)
   \<and> json_loads ref_lib (snapshot_text ref_lib example_sample)
       = Some (JObj [(''ts'', JFloat (Fin 1.5)), (''aTA'', JFloat (Fin 0.42)),
                     (''aGAS'', JFloat (Fin 0.77)), (''valid'', JBool True)])
   \<and> parse_packet ref_lib (snapshot_text ref_lib example_sample)
       = Inr \<lparr>ts = Fin 1.5, aTA = Fin 0.42, aGAS = Fin 0.77, valid = True\<rparr>\<close>
proof -
  have f: "ts example_sample = Fin 1.5" "aTA example_sample = Fin 0.42"
    "aGAS example_sample = Fin 0.77" "valid example_sample = True"
    by (simp_all add: example_sample_def)
  have a: "in01 (aTA example_sample)" and b: "in01 (aGAS example_sample)"
    by (simp_all add: f)
  have stext: \<open>snapshot_text ref_lib example_sample
       = ''{"ts": 1.5, "aTA": 0.42, "aGAS": 0.77, "valid": true}'' @ [CHR 0x0A]\<close>
    by code_simp
  have u: "utf8_decode ref_lib (snapshot_text ref_lib example_sample)
       = Some (snapshot_text ref_lib example_sample)"
    by code_simp
  have l: "json_loads ref_lib (snapshot_text ref_lib example_sample)
       = Some (JObj [(''ts'', JFloat (ts example_sample)), (''aTA'', JFloat (aTA example_sample)),
                     (''aGAS'', JFloat (aGAS example_sample)),
                     (''valid'', JBool (valid example_sample))])"
    by code_simp
  from publish_then_decode_round_trip [OF a b u l] a b stext u l
  show ?thesis by (simp only: f)
qed

end
